theory Spec2Isabelle
  imports Main
begin

section \<open>The relay server of websocket-server.js\<close>

text \<open>
  The server is one Node.js process: every handler of the source runs to completion
  before the next event is taken, so the program is a step function on a server state,
  driven by the events the \<open>ws\<close> library and the runtime deliver. Console output is
  not part of the model. Everything the handlers do to the outside world is appended
  to a trace, in the order of the calls.
\<close>

subsection \<open>Data\<close>

text \<open>A \<open>ws\<close> object is known by its identity; identities are handed out in accept order.\<close>

type_synonym conn = nat

text \<open>The four values of \<open>ws.readyState\<close>.\<close>

datatype ready_state = CONNECTING | OPEN | CLOSING | CLOSED

text \<open>What \<open>JSON.parse\<close> returns; the relay copies it and never looks inside.\<close>

datatype json =
    JNull
  | JBool bool
  | JNumber int
  | JString string
  | JArray "json list"
  | JObject "(string \<times> json) list"

text \<open>\<open>new Date()\<close> in milliseconds; \<open>toISOString\<close> only renders it.\<close>

type_synonym timestamp = nat

text \<open>The four objects the server passes to \<open>JSON.stringify\<close>, by their \<open>type\<close> field.\<close>

datatype notification =
    Welcome string timestamp
  | Echo json timestamp
  | Broadcast json timestamp
  | Error string

text \<open>
  How a call of \<open>ws.send\<close> ends: the frame is delivered, the call returns and the
  frame is lost, or the call throws.
\<close>

datatype outcome = Delivered | Failed | Raised

text \<open>
  The calls that leave the process: \<open>ws.send\<close> with its outcome, \<open>ws.ping\<close>,
  \<open>client.close\<close>, \<open>clearInterval\<close>, \<open>wss.close\<close> and \<open>process.exit\<close>; and the end
  of the process by an exception that no handler catches.
\<close>

datatype action =
    Send conn notification outcome
  | Ping conn
  | CloseCall conn
  | ClearInterval conn
  | ServerClose
  | Exit
  | Uncaught

text \<open>
  What the process reads from its surroundings. \<open>JSON_parse\<close> is \<open>JSON.parse\<close>, with
  \<open>None\<close> for the SyntaxError it throws. \<open>Date_now k\<close> is the value of the \<open>k\<close>-th
  \<open>new Date()\<close> of the process. \<open>send_ok c\<close> says whether the transport of connection
  \<open>c\<close> delivers a frame handed to it, \<open>send_raises c\<close> whether a send on \<open>c\<close> throws.
\<close>

record env =
  JSON_parse :: "string \<Rightarrow> json option"
  Date_now :: "nat \<Rightarrow> timestamp"
  send_ok :: "conn \<Rightarrow> bool"
  send_raises :: "conn \<Rightarrow> bool"

text \<open>
  The state of the process. \<open>clients\<close> is \<open>wss.clients\<close>, a JavaScript \<open>Set\<close>, kept in
  insertion order as \<open>forEach\<close> visits it. \<open>socket\<close> gives the \<open>readyState\<close> of every
  \<open>ws\<close> object created so far. \<open>listeners c\<close> holds once the connection handler has
  attached its \<open>message\<close>, \<open>error\<close>, \<open>close\<close> and \<open>pong\<close> handlers to \<open>c\<close>.
  \<open>timers\<close> are the live \<open>pingInterval\<close>s in creation order, each with the
  milliseconds left until it fires. \<open>dates\<close> counts the \<open>new Date()\<close> calls made.
  \<open>listening\<close> holds while the port is bound, \<open>closing\<close> once \<open>wss.close\<close> has been
  called and its callback is pending, \<open>exited\<close> after \<open>process.exit\<close>. \<open>thrown\<close> holds
  while an exception is on its way out of a handler, \<open>crashed\<close> once one has left a
  handler uncaught and ended the process.
\<close>

record server =
  clients :: "conn list"
  socket :: "conn \<rightharpoonup> ready_state"
  listeners :: "conn \<Rightarrow> bool"
  timers :: "(conn \<times> nat) list"
  next_conn :: conn
  dates :: nat
  listening :: bool
  closing :: bool
  exited :: bool
  thrown :: bool
  crashed :: bool
  trace :: "action list"

definition init :: server where
  "init = \<lparr> clients = [], socket = Map.empty, listeners = (\<lambda>c. False), timers = [],
             next_conn = 0, dates = 0, listening = True, closing = False,
             exited = False, thrown = False, crashed = False, trace = [] \<rparr>"

text \<open>\<open>setInterval(..., 30000)\<close>: the period of the ping timer in milliseconds.\<close>

definition PING_INTERVAL_MS :: nat where
  "PING_INTERVAL_MS = 30000"

subsection \<open>The registry: \<open>wss.clients\<close>\<close>

text \<open>
  The source holds no registry code of its own: \<open>wss.clients\<close> is the \<open>Set\<close> that the
  \<open>ws\<close> library keeps, adding a socket when it accepts it and deleting it when it has
  closed. A \<open>Set\<close> holds a value once, however often it is added, and deleting a value
  it does not hold changes nothing.
\<close>

definition clients_add :: "conn \<Rightarrow> conn list \<Rightarrow> conn list" where
  "clients_add c cs = (if c \<in> set cs then cs else cs @ [c])"

definition clients_delete :: "conn \<Rightarrow> conn list \<Rightarrow> conn list" where
  "clients_delete c cs = filter (\<lambda>x. x \<noteq> c) cs"

subsection \<open>The transport calls\<close>

text \<open>
  Modelled from the spec: \<open>ws.send\<close> belongs to the \<open>ws\<close> library, which is not part of
  the repository. By the transport contract of section 6 of the specification,
  \<open>send(connection, bytes)\<close> ends in success or failure; a send that races a close is a
  failure that is not fatal (section 4.2). A JavaScript call can also fail by throwing,
  and the \<open>try\<close> block of the message handler encloses its sends, so the environment
  says for which connections \<open>send\<close> throws. The call is recorded with its outcome:
  the frame is delivered only on an open connection whose transport works.
\<close>

definition send_outcome :: "env \<Rightarrow> server \<Rightarrow> conn \<Rightarrow> outcome" where
  "send_outcome E s c =
     (if send_raises E c then Raised
      else if socket s c = Some OPEN \<and> send_ok E c then Delivered else Failed)"

definition send :: "env \<Rightarrow> conn \<Rightarrow> notification \<Rightarrow> server \<Rightarrow> server" where
  "send E c n s =
     s\<lparr>thrown := send_raises E c, trace := trace s @ [Send c n (send_outcome E s c)]\<rparr>"

text \<open>
  Modelled from the spec: \<open>ws.ping\<close>, the liveness probe of section 6, a control frame
  and not a notification.
\<close>

definition ping :: "conn \<Rightarrow> server \<Rightarrow> server" where
  "ping c s = s\<lparr>trace := trace s @ [Ping c]\<rparr>"

text \<open>
  Modelled from the spec: \<open>client.close\<close>, the \<open>close(connection)\<close> of section 6. It
  starts the closing handshake of an open connection, which is \<open>CLOSING\<close> from then on
  (the state machine of section 4.2), and does nothing on any other.
\<close>

definition ws_close :: "conn \<Rightarrow> server \<Rightarrow> server" where
  "ws_close c s =
     (let s' = s\<lparr>trace := trace s @ [CloseCall c]\<rparr>
      in if socket s c = Some OPEN then s'\<lparr>socket := (socket s)(c \<mapsto> CLOSING)\<rparr> else s')"

text \<open>\<open>new Date()\<close>: the next reading of the clock.\<close>

definition new_Date :: "env \<Rightarrow> server \<Rightarrow> timestamp" where
  "new_Date E s = Date_now E (dates s)"

definition after_Date :: "server \<Rightarrow> server" where
  "after_Date s = s\<lparr>dates := Suc (dates s)\<rparr>"

subsection \<open>The handlers of the source\<close>

text \<open>
  \<open>wss.clients.forEach\<close> of the message handler: every client other than the sender
  whose \<open>readyState\<close> is \<open>OPEN\<close> is sent a \<open>broadcast\<close> with a timestamp of its own.
  The callback has no \<open>try\<close> of its own: a send that throws ends the loop.
\<close>

fun forEach_broadcast :: "env \<Rightarrow> conn \<Rightarrow> json \<Rightarrow> conn list \<Rightarrow> server \<Rightarrow> server" where
  "forEach_broadcast E ws message [] s = s"
| "forEach_broadcast E ws message (client # rest) s =
     (let s' = (if client \<noteq> ws \<and> socket s client = Some OPEN
                then send E client (Broadcast message (new_Date E s)) (after_Date s)
                else s)
      in if thrown s' then s' else forEach_broadcast E ws message rest s')"

text \<open>
  \<open>ws.on('message', ...)\<close>. The \<open>try\<close> block, once \<open>JSON.parse\<close> has returned: the
  echo to the sender, then the broadcast. The \<open>catch\<close> block: the fixed error object to
  the sender. The \<open>catch\<close> block is entered by the \<open>SyntaxError\<close> of \<open>JSON.parse\<close> and by
  a send of the \<open>try\<close> block that throws; an exception of its own send leaves the handler.
\<close>

definition try_block :: "env \<Rightarrow> conn \<Rightarrow> json \<Rightarrow> server \<Rightarrow> server" where
  "try_block E ws message s =
     (let s1 = send E ws (Echo message (new_Date E s)) (after_Date s)
      in if thrown s1 then s1 else forEach_broadcast E ws message (clients s1) s1)"

definition catch_block :: "env \<Rightarrow> conn \<Rightarrow> server \<Rightarrow> server" where
  "catch_block E ws s = send E ws (Error ''Invalid JSON format'') (s\<lparr>thrown := False\<rparr>)"

definition on_message :: "env \<Rightarrow> conn \<Rightarrow> string \<Rightarrow> server \<Rightarrow> server" where
  "on_message E ws data s =
     (case JSON_parse E data of
        Some message \<Rightarrow>
          (let s' = try_block E ws message s
           in if thrown s' then catch_block E ws s' else s')
      | None \<Rightarrow> catch_block E ws s)"

text \<open>
  The body of \<open>wss.on('connection', ...)\<close> in source order: the welcome, the handlers,
  the ping timer. A welcome that throws leaves the handler before the rest of it runs.
\<close>

definition send_welcome :: "env \<Rightarrow> conn \<Rightarrow> server \<Rightarrow> server" where
  "send_welcome E ws s =
     send E ws (Welcome ''Connected to WebSocket server'' (new_Date E s)) (after_Date s)"

definition attach_handlers :: "conn \<Rightarrow> server \<Rightarrow> server" where
  "attach_handlers ws s = s\<lparr>listeners := (listeners s)(ws := True)\<rparr>"

definition setInterval_ping :: "conn \<Rightarrow> server \<Rightarrow> server" where
  "setInterval_ping ws s = s\<lparr>timers := timers s @ [(ws, PING_INTERVAL_MS)]\<rparr>"

definition on_connection :: "env \<Rightarrow> conn \<Rightarrow> server \<Rightarrow> server" where
  "on_connection E ws s =
     (let s1 = send_welcome E ws s
      in if thrown s1 then s1 else setInterval_ping ws (attach_handlers ws s1))"

text \<open>The callback of the ping timer.\<close>

definition ping_callback :: "conn \<Rightarrow> server \<Rightarrow> server" where
  "ping_callback ws s = (if socket s ws = Some OPEN then ping ws s else s)"

text \<open>The two \<open>close\<close> handlers: the first only logs, the second clears the timer.\<close>

definition on_close :: "conn \<Rightarrow> server \<Rightarrow> server" where
  "on_close ws s =
     s\<lparr>timers := filter (\<lambda>t. fst t \<noteq> ws) (timers s), trace := trace s @ [ClearInterval ws]\<rparr>"

text \<open>
  \<open>process.on('SIGINT', ...)\<close>: \<open>close\<close> on every client, then \<open>wss.close\<close> with the
  callback that exits.
\<close>

definition wss_close :: "server \<Rightarrow> server" where
  "wss_close s = s\<lparr>listening := False, closing := True, trace := trace s @ [ServerClose]\<rparr>"

definition on_SIGINT :: "server \<Rightarrow> server" where
  "on_SIGINT s = wss_close (fold ws_close (clients s) s)"

definition wss_close_callback :: "server \<Rightarrow> server" where
  "wss_close_callback s = s\<lparr>exited := True, trace := trace s @ [Exit]\<rparr>"

subsection \<open>The event loop\<close>

text \<open>
  The events that the \<open>ws\<close> library and the Node.js runtime deliver to the handlers
  of the source: a new connection, a message, an error, a pong, a peer that starts to
  close, the end of a connection, one millisecond of time, the interrupt signal, an
  error of the server, and the completion of \<open>wss.close\<close>.
\<close>

datatype event =
    Connection
  | Message conn string
  | SocketError conn
  | Pong conn
  | PeerClosing conn
  | Close conn
  | Tick
  | SIGINT
  | ServerError
  | ServerClosed

text \<open>
  Modelled from the spec: the accept path of the library, step 1 of "on accept" in
  section 4.2. The new socket gets the next identity, is \<open>OPEN\<close>, and is in
  \<open>wss.clients\<close> before \<open>connection\<close> is emitted.
\<close>

definition accept :: "server \<Rightarrow> server" where
  "accept s =
     s\<lparr>socket := (socket s)(next_conn s \<mapsto> OPEN),
       clients := clients_add (next_conn s) (clients s),
       next_conn := Suc (next_conn s)\<rparr>"

text \<open>
  Modelled from the spec: the end of a connection as the library reports it, the close
  path of section 4.2. The socket is \<open>CLOSED\<close> and deleted from \<open>wss.clients\<close>, then
  the \<open>close\<close> handlers of the source run if they are attached.
\<close>

definition emit_close :: "conn \<Rightarrow> server \<Rightarrow> server" where
  "emit_close c s =
     (let s' = s\<lparr>socket := (socket s)(c \<mapsto> CLOSED), clients := clients_delete c (clients s)\<rparr>
      in if listeners s c then on_close c s' else s')"

text \<open>
  \<open>setInterval\<close>: in one millisecond every timer counts down; the ones that reach zero
  fire, in creation order, and are armed again with the full period.
\<close>

definition due :: "(conn \<times> nat) list \<Rightarrow> conn list" where
  "due ts = map fst (filter (\<lambda>t. snd t \<le> 1) ts)"

definition countdown :: "(conn \<times> nat) list \<Rightarrow> (conn \<times> nat) list" where
  "countdown ts = map (\<lambda>t. (fst t, if snd t \<le> 1 then PING_INTERVAL_MS else snd t - 1)) ts"

definition tick :: "server \<Rightarrow> server" where
  "tick s = fold ping_callback (due (timers s)) (s\<lparr>timers := countdown (timers s)\<rparr>)"

text \<open>
  An exception that leaves a handler is caught by nobody: the runtime ends the process.
\<close>

definition uncaught :: "server \<Rightarrow> server" where
  "uncaught s =
     (if thrown s then s\<lparr>thrown := False, crashed := True, trace := trace s @ [Uncaught]\<rparr>
      else s)"

text \<open>
  One event. Modelled from the spec are the conditions under which the library and the
  runtime deliver it: nothing is delivered to a process that has ended; a connection is
  accepted only while the port is bound; a message reaches the handler of a socket that
  is open or closing, never one that has closed; a peer's close frame or a transport
  error moves an open socket to \<open>CLOSING\<close>; the \<open>close\<close> event of a socket is emitted
  once (sections 4.2 and 5). The callback of \<open>wss.close\<close> runs at some moment after
  \<open>wss.close\<close> has been called: the source puts no other condition on it, and neither
  does the model. The \<open>error\<close> and \<open>pong\<close> handlers of the source only log.
\<close>

definition step :: "env \<Rightarrow> event \<Rightarrow> server \<Rightarrow> server" where
  "step E ev s =
     (if exited s \<or> crashed s then s
      else case ev of
        Connection \<Rightarrow>
          if listening s then uncaught (on_connection E (next_conn s) (accept s)) else s
      | Message c d \<Rightarrow>
          if listeners s c \<and> (socket s c = Some OPEN \<or> socket s c = Some CLOSING)
          then uncaught (on_message E c d s) else s
      | SocketError c \<Rightarrow> s
      | Pong c \<Rightarrow> s
      | PeerClosing c \<Rightarrow>
          if socket s c = Some OPEN then s\<lparr>socket := (socket s)(c \<mapsto> CLOSING)\<rparr> else s
      | Close c \<Rightarrow>
          if socket s c = Some OPEN \<or> socket s c = Some CLOSING then emit_close c s else s
      | Tick \<Rightarrow> tick s
      | SIGINT \<Rightarrow> on_SIGINT s
      | ServerError \<Rightarrow> s
      | ServerClosed \<Rightarrow> if closing s then wss_close_callback s else s)"

definition run :: "env \<Rightarrow> event list \<Rightarrow> server \<Rightarrow> server" where
  "run E evs s = fold (step E) evs s"

subsection \<open>Reading a trace\<close>

fun sends_to :: "conn \<Rightarrow> action list \<Rightarrow> notification list" where
  "sends_to c [] = []"
| "sends_to c (Send d n ok # as) = (if d = c then n # sends_to c as else sends_to c as)"
| "sends_to c (a # as) = sends_to c as"

fun is_echo :: "json \<Rightarrow> notification \<Rightarrow> bool" where
  "is_echo P (Echo m t) = (m = P)"
| "is_echo P n = False"

text \<open>What a step added to the trace.\<close>

definition emitted :: "server \<Rightarrow> server \<Rightarrow> action list" where
  "emitted s s' = drop (length (trace s)) (trace s')"

text \<open>What each event of a list adds to the trace, event by event.\<close>

fun outputs :: "env \<Rightarrow> event list \<Rightarrow> server \<Rightarrow> action list list" where
  "outputs E [] s = []"
| "outputs E (ev # evs) s = emitted s (step E ev s) # outputs E evs (step E ev s)"

text \<open>The timestamps carried by the notifications of a trace, in order.\<close>

fun stamps :: "action list \<Rightarrow> timestamp list" where
  "stamps [] = []"
| "stamps (Send r (Welcome m t) ok # as) = t # stamps as"
| "stamps (Send r (Echo m t) ok # as) = t # stamps as"
| "stamps (Send r (Broadcast m t) ok # as) = t # stamps as"
| "stamps (a # as) = stamps as"

text \<open>A send without its outcome: who was sent what.\<close>

fun attempt :: "action \<Rightarrow> action" where
  "attempt (Send r n ok) = Send r n Delivered"
| "attempt a = a"

text \<open>The connections a list of actions sends to.\<close>

definition targets :: "action list \<Rightarrow> conn set" where
  "targets xs = {r. \<exists>n ok. Send r n ok \<in> set xs}"

text \<open>The outcome of a send on an open connection.\<close>

definition open_outcome :: "env \<Rightarrow> conn \<Rightarrow> outcome" where
  "open_outcome E r =
     (if send_raises E r then Raised else if send_ok E r then Delivered else Failed)"

text \<open>
  The broadcasts of one fan-out, as a list: the recipients in the order given, the
  \<open>k\<close>-th of them stamped with the \<open>k\<close>-th reading of the clock from \<open>k0\<close> on.
\<close>

fun stamped :: "env \<Rightarrow> json \<Rightarrow> nat \<Rightarrow> conn list \<Rightarrow> action list" where
  "stamped E m k [] = []"
| "stamped E m k (r # rs) =
     Send r (Broadcast m (Date_now E k)) (open_outcome E r) # stamped E m (Suc k) rs"

text \<open>
  The recipients a loop over \<open>rs\<close> reaches: all of them up to and including the first
  whose send throws.
\<close>

fun reached :: "env \<Rightarrow> conn list \<Rightarrow> conn list" where
  "reached E [] = []"
| "reached E (r # rs) = (if send_raises E r then [r] else r # reached E rs)"

definition recipients :: "conn \<Rightarrow> server \<Rightarrow> conn list" where
  "recipients ws s = filter (\<lambda>r. r \<noteq> ws \<and> socket s r = Some OPEN) (clients s)"

text \<open>The events that close connection \<open>c\<close> or start closing it.\<close>

fun affects :: "conn \<Rightarrow> event \<Rightarrow> bool" where
  "affects c (Close c') = (c' = c)"
| "affects c (PeerClosing c') = (c' = c)"
| "affects c SIGINT = True"
| "affects c ev = False"

subsection \<open>What holds in every reachable state\<close>

text \<open>
  What holds of the registry in every state the server can reach: \<open>wss.clients\<close> has
  no duplicates and holds exactly the sockets that are \<open>OPEN\<close> or \<open>CLOSING\<close>; the
  sockets created so far are the identities below \<open>next_conn\<close>, each with its handlers
  attached unless the process has crashed; no server-side socket is \<open>CONNECTING\<close>; no
  exception is pending between two events.
\<close>

definition reg_ok :: "server \<Rightarrow> bool" where
  "reg_ok s \<longleftrightarrow>
     distinct (clients s)
     \<and> (\<forall>r. r \<in> set (clients s) \<longleftrightarrow> socket s r = Some OPEN \<or> socket s r = Some CLOSING)
     \<and> (\<forall>r. socket s r \<noteq> None \<longleftrightarrow> r < next_conn s)
     \<and> (\<forall>r. listeners s r \<longrightarrow> r < next_conn s)
     \<and> (\<not> crashed s \<longrightarrow> (\<forall>r. r < next_conn s \<longrightarrow> listeners s r))
     \<and> (\<forall>r. socket s r \<noteq> Some CONNECTING)
     \<and> \<not> thrown s"

text \<open>
  What holds of the notifications in every reachable state: whatever has been sent to a
  connection starts with its welcome; a connection whose handlers are attached has been
  sent something; and, unless the process has crashed, one without handlers has been
  sent nothing.
\<close>

definition welcome_ok :: "server \<Rightarrow> bool" where
  "welcome_ok s \<longleftrightarrow>
     (\<forall>r. (sends_to r (trace s) = [] \<or> (\<exists>m t rest. sends_to r (trace s) = Welcome m t # rest))
        \<and> (listeners s r \<longrightarrow> sends_to r (trace s) \<noteq> [])
        \<and> (\<not> listeners s r \<and> \<not> crashed s \<longrightarrow> sends_to r (trace s) = []))"

text \<open>
  What holds of the ping timers in every reachable state: at most one live timer for a
  connection, only for connections of the registry, and for each of them unless the
  process has crashed; each timer is between 1 and 30000 milliseconds from firing.
\<close>

definition timers_ok :: "server \<Rightarrow> bool" where
  "timers_ok s \<longleftrightarrow>
     distinct (map fst (timers s))
     \<and> set (map fst (timers s)) \<subseteq> set (clients s)
     \<and> (\<not> crashed s \<longrightarrow> set (clients s) \<subseteq> set (map fst (timers s)))
     \<and> (\<forall>t \<in> set (timers s). 1 \<le> snd t \<and> snd t \<le> PING_INTERVAL_MS)"

text \<open>\<open>clearInterval\<close> has been called once for a closed socket and never for another.\<close>

definition cleanup_ok :: "server \<Rightarrow> bool" where
  "cleanup_ok s \<longleftrightarrow>
     (\<forall>r. count_list (trace s) (ClearInterval r) = (if socket s r = Some CLOSED then 1 else 0))"

text \<open>
  What holds of the shutdown in every reachable state: once \<open>wss.close\<close> has been called
  the port is released and the call is in the trace; the process has exited only with
  \<open>wss.close\<close> called, and \<open>process.exit\<close> is then the last call of the trace and
  the only one of its kind.
\<close>

definition shutdown_ok :: "server \<Rightarrow> bool" where
  "shutdown_ok s \<longleftrightarrow>
     (closing s \<longrightarrow> \<not> listening s \<and> ServerClose \<in> set (trace s))
     \<and> (exited s \<longrightarrow> closing s \<and> (\<exists>pre. trace s = pre @ [Exit] \<and> Exit \<notin> set pre))
     \<and> (\<not> exited s \<longrightarrow> Exit \<notin> set (trace s))"

text \<open>
  Once \<open>wss.close\<close> has been called, every connection of the registry is closing and
  \<open>close\<close> was called on it before \<open>wss.close\<close> was.
\<close>

definition closed_first :: "server \<Rightarrow> bool" where
  "closed_first s \<longleftrightarrow>
     (closing s \<longrightarrow>
        (\<forall>r \<in> set (clients s). socket s r = Some CLOSING)
        \<and> (\<exists>pre post. trace s = pre @ ServerClose # post
              \<and> (\<forall>r \<in> set (clients s). CloseCall r \<in> set pre)))"

subsection \<open>Worked examples\<close>

text \<open>An environment and a parser for the worked examples.\<close>

definition demo_parse :: "string \<Rightarrow> json option" where
  "demo_parse d =
     (if d = ''{\"a\":1}'' then Some (JObject [(''a'', JNumber 1)])
      else if d = ''{\"x\":2}'' then Some (JObject [(''x'', JNumber 2)])
      else None)"

definition demo_env :: env where
  "demo_env = \<lparr> JSON_parse = demo_parse, Date_now = (\<lambda>k. 1000 + 7 * k),
                send_ok = (\<lambda>c. c \<noteq> 1), send_raises = (\<lambda>c. False) \<rparr>"

definition one_client :: server where
  "one_client = run demo_env [Connection] init"

definition two_clients :: server where
  "two_clients = run demo_env [Connection, Connection] init"

definition three_clients :: server where
  "three_clients = run demo_env [Connection, Connection, Connection] init"

definition relayed :: server where
  "relayed = run demo_env [Connection, Connection, Message 0 ''{\"a\":1}''] init"

definition about_to_ping :: server where
  "about_to_ping = run demo_env (Connection # replicate 29999 Tick) init"

definition closed_twice :: server where
  "closed_twice = run demo_env [Connection, Connection, Close 1, Close 1, Tick] init"

definition closing_down :: server where
  "closing_down = run demo_env [Connection, Connection, SIGINT] init"

text \<open>One connection has finished closing when the callback of \<open>wss.close\<close> runs.\<close>

definition late_exit :: server where
  "late_exit = run demo_env [Connection, Connection, SIGINT, Close 1, ServerClosed] init"

text \<open>The callback of \<open>wss.close\<close> runs before any connection has finished closing.\<close>

definition exit_early :: server where
  "exit_early = run demo_env [Connection, Connection, SIGINT, ServerClosed] init"

section \<open>Properties\<close>

subsection \<open>What each call leaves unchanged\<close>

lemma send_fields [simp]:
  "clients (send E c n s) = clients s"
  "socket (send E c n s) = socket s"
  "listeners (send E c n s) = listeners s"
  "timers (send E c n s) = timers s"
  "next_conn (send E c n s) = next_conn s"
  "dates (send E c n s) = dates s"
  "listening (send E c n s) = listening s"
  "closing (send E c n s) = closing s"
  "exited (send E c n s) = exited s"
  "crashed (send E c n s) = crashed s"
  "thrown (send E c n s) = send_raises E c"
  "trace (send E c n s) = trace s @ [Send c n (send_outcome E s c)]"
  by (simp_all add: send_def)

lemma send_outcome_simps [simp]:
  "send_outcome E (after_Date s) c = send_outcome E s c"
  "send_outcome E (send E' c' n s) c = send_outcome E s c"
  "send_outcome E (s\<lparr>thrown := b\<rparr>) c = send_outcome E s c"
  by (simp_all add: send_outcome_def after_Date_def send_def)

lemma send_outcome_open: "socket s r = Some OPEN \<Longrightarrow> send_outcome E s r = open_outcome E r"
  by (simp add: send_outcome_def open_outcome_def)

lemma after_Date_fields [simp]:
  "clients (after_Date s) = clients s"
  "socket (after_Date s) = socket s"
  "listeners (after_Date s) = listeners s"
  "timers (after_Date s) = timers s"
  "next_conn (after_Date s) = next_conn s"
  "dates (after_Date s) = Suc (dates s)"
  "listening (after_Date s) = listening s"
  "closing (after_Date s) = closing s"
  "exited (after_Date s) = exited s"
  "crashed (after_Date s) = crashed s"
  "thrown (after_Date s) = thrown s"
  "trace (after_Date s) = trace s"
  by (simp_all add: after_Date_def)

lemma forEach_fields [simp]:
  "clients (forEach_broadcast E ws m cs s) = clients s"
  "socket (forEach_broadcast E ws m cs s) = socket s"
  "listeners (forEach_broadcast E ws m cs s) = listeners s"
  "timers (forEach_broadcast E ws m cs s) = timers s"
  "next_conn (forEach_broadcast E ws m cs s) = next_conn s"
  "listening (forEach_broadcast E ws m cs s) = listening s"
  "closing (forEach_broadcast E ws m cs s) = closing s"
  "exited (forEach_broadcast E ws m cs s) = exited s"
  "crashed (forEach_broadcast E ws m cs s) = crashed s"
  by (induction cs arbitrary: s; simp add: Let_def)+

lemma forEach_trace:
  "\<not> thrown s \<Longrightarrow>
   trace (forEach_broadcast E ws m cs s) =
     trace s @ stamped E m (dates s) (reached E (filter (\<lambda>r. r \<noteq> ws \<and> socket s r = Some OPEN) cs))"
proof (induction cs arbitrary: s)
  case Nil
  show ?case by simp
next
  case (Cons c cs)
  show ?case
  proof (cases "c \<noteq> ws \<and> socket s c = Some OPEN")
    case True
    let ?s = "send E c (Broadcast m (new_Date E s)) (after_Date s)"
    show ?thesis
    proof (cases "send_raises E c")
      case True
      then show ?thesis
        using \<open>c \<noteq> ws \<and> socket s c = Some OPEN\<close>
        by (simp add: Let_def new_Date_def send_outcome_open)
    next
      case False
      then have "\<not> thrown ?s" by simp
      from Cons.IH [OF this] show ?thesis
        using False \<open>c \<noteq> ws \<and> socket s c = Some OPEN\<close>
        by (simp add: Let_def new_Date_def send_outcome_open)
    qed
  next
    case False
    then show ?thesis using Cons.IH [OF Cons.prems] Cons.prems by (auto simp: Let_def)
  qed
qed

lemma forEach_thrown:
  "\<not> thrown s \<Longrightarrow>
   thrown (forEach_broadcast E ws m cs s) =
     (\<exists>r \<in> set (filter (\<lambda>r. r \<noteq> ws \<and> socket s r = Some OPEN) cs). send_raises E r)"
proof (induction cs arbitrary: s)
  case Nil
  then show ?case by simp
next
  case (Cons c cs)
  show ?case
  proof (cases "c \<noteq> ws \<and> socket s c = Some OPEN")
    case True
    let ?s = "send E c (Broadcast m (new_Date E s)) (after_Date s)"
    show ?thesis
    proof (cases "send_raises E c")
      case True
      then show ?thesis using \<open>c \<noteq> ws \<and> socket s c = Some OPEN\<close> by (simp add: Let_def)
    next
      case False
      then have "\<not> thrown ?s" by simp
      from Cons.IH [OF this] show ?thesis
        using False \<open>c \<noteq> ws \<and> socket s c = Some OPEN\<close> by (simp add: Let_def)
    qed
  next
    case False
    then show ?thesis using Cons.IH [OF Cons.prems] Cons.prems by (auto simp: Let_def)
  qed
qed

lemma send_outcome_forEach [simp]:
  "send_outcome E (forEach_broadcast E' ws m cs s) c = send_outcome E s c"
  by (simp add: send_outcome_def)

lemma try_block_fields [simp]:
  "clients (try_block E ws m s) = clients s"
  "socket (try_block E ws m s) = socket s"
  "listeners (try_block E ws m s) = listeners s"
  "timers (try_block E ws m s) = timers s"
  "next_conn (try_block E ws m s) = next_conn s"
  "listening (try_block E ws m s) = listening s"
  "closing (try_block E ws m s) = closing s"
  "exited (try_block E ws m s) = exited s"
  "crashed (try_block E ws m s) = crashed s"
  by (simp_all add: try_block_def Let_def)

lemma send_outcome_try_block [simp]:
  "send_outcome E (try_block E' ws m s) c = send_outcome E s c"
  by (simp add: send_outcome_def)

lemma catch_block_fields [simp]:
  "clients (catch_block E ws s) = clients s"
  "socket (catch_block E ws s) = socket s"
  "listeners (catch_block E ws s) = listeners s"
  "timers (catch_block E ws s) = timers s"
  "next_conn (catch_block E ws s) = next_conn s"
  "dates (catch_block E ws s) = dates s"
  "listening (catch_block E ws s) = listening s"
  "closing (catch_block E ws s) = closing s"
  "exited (catch_block E ws s) = exited s"
  "crashed (catch_block E ws s) = crashed s"
  "thrown (catch_block E ws s) = send_raises E ws"
  "trace (catch_block E ws s) =
     trace s @ [Send ws (Error ''Invalid JSON format'') (send_outcome E s ws)]"
  by (simp_all add: catch_block_def)

lemma on_message_fields [simp]:
  "clients (on_message E ws d s) = clients s"
  "socket (on_message E ws d s) = socket s"
  "listeners (on_message E ws d s) = listeners s"
  "timers (on_message E ws d s) = timers s"
  "next_conn (on_message E ws d s) = next_conn s"
  "listening (on_message E ws d s) = listening s"
  "closing (on_message E ws d s) = closing s"
  "exited (on_message E ws d s) = exited s"
  "crashed (on_message E ws d s) = crashed s"
  by (simp_all add: on_message_def Let_def split: option.split)

text \<open>
  What the message handler sends for a payload that parses to \<open>P\<close>: the echo; unless
  the echo threw, the broadcasts up to the first that throws; and, if any of them threw,
  the error object.
\<close>

lemma try_block_trace:
  "\<not> thrown s \<Longrightarrow>
   trace (try_block E ws P s) =
     trace s @ Send ws (Echo P (Date_now E (dates s))) (send_outcome E s ws)
       # (if send_raises E ws then []
          else stamped E P (Suc (dates s)) (reached E (recipients ws s)))"
  by (simp add: try_block_def Let_def forEach_trace new_Date_def recipients_def)

lemma try_block_thrown:
  "\<not> thrown s \<Longrightarrow>
   thrown (try_block E ws P s) =
     (send_raises E ws \<or> (\<exists>r \<in> set (recipients ws s). send_raises E r))"
  by (auto simp: try_block_def Let_def forEach_thrown recipients_def)

lemma on_message_trace_Some:
  "JSON_parse E d = Some P \<Longrightarrow> \<not> thrown s \<Longrightarrow>
   trace (on_message E ws d s) =
     trace s @ Send ws (Echo P (Date_now E (dates s))) (send_outcome E s ws)
       # (if send_raises E ws then []
          else stamped E P (Suc (dates s)) (reached E (recipients ws s)))
       @ (if send_raises E ws \<or> (\<exists>r \<in> set (recipients ws s). send_raises E r)
          then [Send ws (Error ''Invalid JSON format'') (send_outcome E s ws)] else [])"
  by (simp add: on_message_def Let_def try_block_trace try_block_thrown)

lemma on_message_trace_None:
  "JSON_parse E d = None \<Longrightarrow>
   trace (on_message E ws d s) =
     trace s @ [Send ws (Error ''Invalid JSON format'') (send_outcome E s ws)]"
  by (simp add: on_message_def)

lemma on_message_thrown:
  "\<not> thrown s \<Longrightarrow> thrown (on_message E ws d s) = send_raises E ws"
  by (auto simp: on_message_def Let_def try_block_thrown split: option.split)

lemma ping_callback_fields [simp]:
  "clients (ping_callback c s) = clients s"
  "socket (ping_callback c s) = socket s"
  "listeners (ping_callback c s) = listeners s"
  "timers (ping_callback c s) = timers s"
  "next_conn (ping_callback c s) = next_conn s"
  "dates (ping_callback c s) = dates s"
  "listening (ping_callback c s) = listening s"
  "closing (ping_callback c s) = closing s"
  "exited (ping_callback c s) = exited s"
  "crashed (ping_callback c s) = crashed s"
  "thrown (ping_callback c s) = thrown s"
  "trace (ping_callback c s) = trace s @ (if socket s c = Some OPEN then [Ping c] else [])"
  by (simp_all add: ping_callback_def ping_def)

lemma fold_ping_fields [simp]:
  "clients (fold ping_callback cs s) = clients s"
  "socket (fold ping_callback cs s) = socket s"
  "listeners (fold ping_callback cs s) = listeners s"
  "timers (fold ping_callback cs s) = timers s"
  "next_conn (fold ping_callback cs s) = next_conn s"
  "dates (fold ping_callback cs s) = dates s"
  "listening (fold ping_callback cs s) = listening s"
  "closing (fold ping_callback cs s) = closing s"
  "exited (fold ping_callback cs s) = exited s"
  "crashed (fold ping_callback cs s) = crashed s"
  "thrown (fold ping_callback cs s) = thrown s"
  by (induction cs arbitrary: s; simp)+

lemma fold_ping_trace:
  "trace (fold ping_callback cs s) =
     trace s @ map Ping (filter (\<lambda>c. socket s c = Some OPEN) cs)"
  by (induction cs arbitrary: s) simp_all

lemma tick_fields [simp]:
  "clients (tick s) = clients s"
  "socket (tick s) = socket s"
  "listeners (tick s) = listeners s"
  "timers (tick s) = countdown (timers s)"
  "next_conn (tick s) = next_conn s"
  "dates (tick s) = dates s"
  "listening (tick s) = listening s"
  "closing (tick s) = closing s"
  "exited (tick s) = exited s"
  "crashed (tick s) = crashed s"
  "thrown (tick s) = thrown s"
  "trace (tick s) = trace s @ map Ping (filter (\<lambda>c. socket s c = Some OPEN) (due (timers s)))"
  by (simp_all add: tick_def fold_ping_trace)

lemma ws_close_fields [simp]:
  "clients (ws_close c s) = clients s"
  "socket (ws_close c s) = (if socket s c = Some OPEN then (socket s)(c \<mapsto> CLOSING) else socket s)"
  "listeners (ws_close c s) = listeners s"
  "timers (ws_close c s) = timers s"
  "next_conn (ws_close c s) = next_conn s"
  "dates (ws_close c s) = dates s"
  "listening (ws_close c s) = listening s"
  "closing (ws_close c s) = closing s"
  "exited (ws_close c s) = exited s"
  "crashed (ws_close c s) = crashed s"
  "thrown (ws_close c s) = thrown s"
  "trace (ws_close c s) = trace s @ [CloseCall c]"
  by (simp_all add: ws_close_def Let_def)

lemma fold_ws_close_fields [simp]:
  "clients (fold ws_close cs s) = clients s"
  "listeners (fold ws_close cs s) = listeners s"
  "timers (fold ws_close cs s) = timers s"
  "next_conn (fold ws_close cs s) = next_conn s"
  "dates (fold ws_close cs s) = dates s"
  "listening (fold ws_close cs s) = listening s"
  "closing (fold ws_close cs s) = closing s"
  "exited (fold ws_close cs s) = exited s"
  "crashed (fold ws_close cs s) = crashed s"
  "thrown (fold ws_close cs s) = thrown s"
  by (induction cs arbitrary: s; simp)+

lemma fold_ws_close_trace:
  "trace (fold ws_close cs s) = trace s @ map CloseCall cs"
  by (induction cs arbitrary: s) simp_all

lemma fold_ws_close_socket:
  "socket (fold ws_close cs s) r =
     (if r \<in> set cs \<and> socket s r = Some OPEN then Some CLOSING else socket s r)"
  by (induction cs arbitrary: s) auto

lemma on_SIGINT_fields [simp]:
  "clients (on_SIGINT s) = clients s"
  "listeners (on_SIGINT s) = listeners s"
  "timers (on_SIGINT s) = timers s"
  "next_conn (on_SIGINT s) = next_conn s"
  "dates (on_SIGINT s) = dates s"
  "listening (on_SIGINT s) = False"
  "closing (on_SIGINT s) = True"
  "exited (on_SIGINT s) = exited s"
  "crashed (on_SIGINT s) = crashed s"
  "thrown (on_SIGINT s) = thrown s"
  "trace (on_SIGINT s) = trace s @ map CloseCall (clients s) @ [ServerClose]"
  by (simp_all add: on_SIGINT_def wss_close_def fold_ws_close_trace)

lemma on_SIGINT_socket:
  "socket (on_SIGINT s) r =
     (if r \<in> set (clients s) \<and> socket s r = Some OPEN then Some CLOSING else socket s r)"
  by (simp add: on_SIGINT_def wss_close_def fold_ws_close_socket)

lemma wss_close_callback_fields [simp]:
  "clients (wss_close_callback s) = clients s"
  "socket (wss_close_callback s) = socket s"
  "listeners (wss_close_callback s) = listeners s"
  "timers (wss_close_callback s) = timers s"
  "next_conn (wss_close_callback s) = next_conn s"
  "dates (wss_close_callback s) = dates s"
  "listening (wss_close_callback s) = listening s"
  "closing (wss_close_callback s) = closing s"
  "exited (wss_close_callback s) = True"
  "crashed (wss_close_callback s) = crashed s"
  "thrown (wss_close_callback s) = thrown s"
  "trace (wss_close_callback s) = trace s @ [Exit]"
  by (simp_all add: wss_close_callback_def)

lemma emit_close_fields [simp]:
  "clients (emit_close c s) = clients_delete c (clients s)"
  "socket (emit_close c s) = (socket s)(c \<mapsto> CLOSED)"
  "listeners (emit_close c s) = listeners s"
  "timers (emit_close c s) =
     (if listeners s c then filter (\<lambda>t. fst t \<noteq> c) (timers s) else timers s)"
  "next_conn (emit_close c s) = next_conn s"
  "dates (emit_close c s) = dates s"
  "listening (emit_close c s) = listening s"
  "closing (emit_close c s) = closing s"
  "exited (emit_close c s) = exited s"
  "crashed (emit_close c s) = crashed s"
  "thrown (emit_close c s) = thrown s"
  "trace (emit_close c s) = trace s @ (if listeners s c then [ClearInterval c] else [])"
  by (simp_all add: emit_close_def on_close_def Let_def)

lemma uncaught_fields [simp]:
  "clients (uncaught s) = clients s"
  "socket (uncaught s) = socket s"
  "listeners (uncaught s) = listeners s"
  "timers (uncaught s) = timers s"
  "next_conn (uncaught s) = next_conn s"
  "dates (uncaught s) = dates s"
  "listening (uncaught s) = listening s"
  "closing (uncaught s) = closing s"
  "exited (uncaught s) = exited s"
  "crashed (uncaught s) = (crashed s \<or> thrown s)"
  "thrown (uncaught s) = False"
  "trace (uncaught s) = trace s @ (if thrown s then [Uncaught] else [])"
  by (simp_all add: uncaught_def)

lemma connection_fields [simp]:
  "clients (on_connection E (next_conn s) (accept s)) = clients_add (next_conn s) (clients s)"
  "socket (on_connection E (next_conn s) (accept s)) = (socket s)(next_conn s \<mapsto> OPEN)"
  "listeners (on_connection E (next_conn s) (accept s)) =
     (if send_raises E (next_conn s) then listeners s else (listeners s)(next_conn s := True))"
  "timers (on_connection E (next_conn s) (accept s)) =
     (if send_raises E (next_conn s) then timers s
      else timers s @ [(next_conn s, PING_INTERVAL_MS)])"
  "next_conn (on_connection E (next_conn s) (accept s)) = Suc (next_conn s)"
  "dates (on_connection E (next_conn s) (accept s)) = Suc (dates s)"
  "listening (on_connection E (next_conn s) (accept s)) = listening s"
  "closing (on_connection E (next_conn s) (accept s)) = closing s"
  "exited (on_connection E (next_conn s) (accept s)) = exited s"
  "crashed (on_connection E (next_conn s) (accept s)) = crashed s"
  "thrown (on_connection E (next_conn s) (accept s)) = send_raises E (next_conn s)"
  "trace (on_connection E (next_conn s) (accept s)) =
     trace s @ [Send (next_conn s) (Welcome ''Connected to WebSocket server'' (Date_now E (dates s)))
                  (open_outcome E (next_conn s))]"
  by (simp_all add: on_connection_def accept_def setInterval_ping_def attach_handlers_def
        send_welcome_def new_Date_def Let_def send_outcome_def open_outcome_def)

subsection \<open>The event loop\<close>

lemma run_Nil [simp]: "run E [] s = s"
  by (simp add: run_def)

lemma run_Cons [simp]: "run E (ev # evs) s = run E evs (step E ev s)"
  by (simp add: run_def)

lemma step_cases:
  assumes "\<not> exited s \<Longrightarrow> \<not> crashed s \<Longrightarrow> listening s \<Longrightarrow> ev = Connection
           \<Longrightarrow> Q (uncaught (on_connection E (next_conn s) (accept s)))"
    and "\<And>c d. \<not> exited s \<Longrightarrow> \<not> crashed s \<Longrightarrow> listeners s c
           \<Longrightarrow> socket s c = Some OPEN \<or> socket s c = Some CLOSING
           \<Longrightarrow> ev = Message c d \<Longrightarrow> Q (uncaught (on_message E c d s))"
    and "\<And>c. \<not> exited s \<Longrightarrow> \<not> crashed s \<Longrightarrow> socket s c = Some OPEN \<Longrightarrow> ev = PeerClosing c
           \<Longrightarrow> Q (s\<lparr>socket := (socket s)(c \<mapsto> CLOSING)\<rparr>)"
    and "\<And>c. \<not> exited s \<Longrightarrow> \<not> crashed s
           \<Longrightarrow> socket s c = Some OPEN \<or> socket s c = Some CLOSING \<Longrightarrow> ev = Close c
           \<Longrightarrow> Q (emit_close c s)"
    and "\<not> exited s \<Longrightarrow> \<not> crashed s \<Longrightarrow> ev = Tick \<Longrightarrow> Q (tick s)"
    and "\<not> exited s \<Longrightarrow> \<not> crashed s \<Longrightarrow> ev = SIGINT \<Longrightarrow> Q (on_SIGINT s)"
    and "\<not> exited s \<Longrightarrow> \<not> crashed s \<Longrightarrow> closing s \<Longrightarrow> ev = ServerClosed
           \<Longrightarrow> Q (wss_close_callback s)"
    and "Q s"
  shows "Q (step E ev s)"
  using assms by (cases ev) (auto simp: step_def)

lemma emitted_append: "trace s' = trace s @ xs \<Longrightarrow> emitted s s' = xs"
  by (simp add: emitted_def)

lemma emitted_self [simp]: "emitted s s = []"
  by (simp add: emitted_def)

lemma step_Message:
  "\<not> exited s \<Longrightarrow> \<not> crashed s \<Longrightarrow> listeners s c
   \<Longrightarrow> socket s c = Some OPEN \<or> socket s c = Some CLOSING \<Longrightarrow>
   step E (Message c d) s = uncaught (on_message E c d s)"
  by (auto simp: step_def)

lemma on_message_extends_trace:
  "\<not> thrown s \<Longrightarrow> \<exists>xs. trace (on_message E c d s) = trace s @ xs"
  by (cases "JSON_parse E d") (simp_all add: on_message_trace_None on_message_trace_Some)

lemma step_extends_trace: "\<not> thrown s \<Longrightarrow> \<exists>xs. trace (step E ev s) = trace s @ xs"
proof (rule step_cases [where Q = "\<lambda>x. \<exists>xs. trace x = trace s @ xs"])
  fix c d
  assume "\<not> thrown s"
  from on_message_extends_trace [OF this, of E c d]
  show "\<exists>xs. trace (uncaught (on_message E c d s)) = trace s @ xs" by auto
qed simp_all

subsection \<open>The registry invariant\<close>

lemma reg_ok_init: "reg_ok init"
  by (simp add: reg_ok_def init_def)

lemma reg_ok_step: "reg_ok s \<Longrightarrow> reg_ok (step E ev s)"
proof (rule step_cases [where Q = reg_ok])
  assume r: "reg_ok s" and nc: "\<not> crashed s"
  let ?s = "uncaught (on_connection E (next_conn s) (accept s))"
  have fresh: "next_conn s \<notin> set (clients s)"
    using r unfolding reg_ok_def by (metis less_irrefl option.distinct(1))
  have 1: "distinct (clients ?s)"
    using r fresh by (simp add: reg_ok_def clients_add_def)
  have 2: "\<forall>x. x \<in> set (clients ?s) \<longleftrightarrow> socket ?s x = Some OPEN \<or> socket ?s x = Some CLOSING"
    using r fresh by (auto simp: reg_ok_def clients_add_def)
  have 3: "\<forall>x. socket ?s x \<noteq> None \<longleftrightarrow> x < next_conn ?s"
    using r by (auto simp: reg_ok_def less_Suc_eq)
  have 4: "\<forall>x. listeners ?s x \<longrightarrow> x < next_conn ?s"
    using r by (auto simp: reg_ok_def less_Suc_eq split: if_splits)
  have 5: "\<not> crashed ?s \<longrightarrow> (\<forall>x. x < next_conn ?s \<longrightarrow> listeners ?s x)"
    using r nc by (auto simp: reg_ok_def less_Suc_eq)
  have 6: "\<forall>x. socket ?s x \<noteq> Some CONNECTING"
    using r by (simp add: reg_ok_def)
  have 7: "\<not> thrown ?s" by simp
  show "reg_ok ?s"
    unfolding reg_ok_def using 1 2 3 4 5 6 7 by (intro conjI)
next
  fix c d
  assume r: "reg_ok s"
  show "reg_ok (uncaught (on_message E c d s))"
    using r by (simp add: reg_ok_def)
next
  fix c
  assume r: "reg_ok s" and "socket s c = Some OPEN"
  then show "reg_ok (s\<lparr>socket := (socket s)(c \<mapsto> CLOSING)\<rparr>)"
    unfolding reg_ok_def by auto
next
  fix c
  assume r: "reg_ok s" and "socket s c = Some OPEN \<or> socket s c = Some CLOSING"
  then show "reg_ok (emit_close c s)"
    unfolding reg_ok_def by (auto simp: clients_delete_def)
next
  assume r: "reg_ok s"
  then show "reg_ok (tick s)" by (simp add: reg_ok_def)
next
  assume r: "reg_ok s"
  then show "reg_ok (on_SIGINT s)"
    unfolding reg_ok_def by (auto simp: on_SIGINT_socket)
next
  assume r: "reg_ok s"
  then show "reg_ok (wss_close_callback s)" by (simp add: reg_ok_def)
next
  assume "reg_ok s" then show "reg_ok s" .
qed

lemma reg_ok_run: "reg_ok s \<Longrightarrow> reg_ok (run E evs s)"
  by (induction evs arbitrary: s) (simp_all add: reg_ok_step)

lemma reg_ok_reachable: "reg_ok (run E evs init)"
  by (rule reg_ok_run [OF reg_ok_init])

lemma reg_ok_not_thrown: "reg_ok s \<Longrightarrow> \<not> thrown s"
  by (simp add: reg_ok_def)

lemma reg_ok_listeners:
  assumes "reg_ok s" and "\<not> crashed s" and "socket s c = Some st"
  shows "listeners s c"
proof -
  have "socket s c \<noteq> None" using assms(3) by simp
  then have "c < next_conn s" using assms(1) unfolding reg_ok_def by blast
  then show ?thesis using assms(1,2) unfolding reg_ok_def by blast
qed

lemma reg_ok_fresh:
  assumes "reg_ok s" and "socket s c = Some st"
  shows "c \<noteq> next_conn s"
proof -
  have "socket s c \<noteq> None" using assms(2) by simp
  then have "c < next_conn s" using assms(1) unfolding reg_ok_def by blast
  then show ?thesis by simp
qed

lemma trace_step:
  "reg_ok s \<Longrightarrow> trace (step E ev s) = trace s @ emitted s (step E ev s)"
  using step_extends_trace [OF reg_ok_not_thrown, of s E ev] by (auto simp: emitted_def)

lemma run_extends_trace: "reg_ok s \<Longrightarrow> \<exists>xs. trace (run E evs s) = trace s @ xs"
proof (induction evs arbitrary: s)
  case Nil
  show ?case by simp
next
  case (Cons ev evs)
  from step_extends_trace [OF reg_ok_not_thrown [OF Cons.prems], of E ev] obtain xs
    where x: "trace (step E ev s) = trace s @ xs" ..
  from Cons.IH [OF reg_ok_step [OF Cons.prems, of E ev]] obtain ys
    where "trace (run E evs (step E ev s)) = trace (step E ev s) @ ys" ..
  then show ?case by (simp add: x)
qed

lemma emitted_run_Cons:
  assumes "reg_ok s"
  shows "emitted s (run E evs (step E ev s)) =
     emitted s (step E ev s) @ emitted (step E ev s) (run E evs (step E ev s))"
proof -
  from step_extends_trace [OF reg_ok_not_thrown [OF assms], of E ev] obtain xs
    where x: "trace (step E ev s) = trace s @ xs" ..
  from run_extends_trace [OF reg_ok_step [OF assms, of E ev], of E evs] obtain ys
    where y: "trace (run E evs (step E ev s)) = trace (step E ev s) @ ys" ..
  show ?thesis by (simp add: emitted_def x y)
qed

subsection \<open>Worked examples\<close>

lemmas demo_defs = run_def step_def init_def accept_def on_connection_def
  setInterval_ping_def attach_handlers_def send_welcome_def clients_add_def
  new_Date_def after_Date_def send_def send_outcome_def on_message_def try_block_def
  catch_block_def uncaught_def emitted_def demo_env_def demo_parse_def
  recipients_def PING_INTERVAL_MS_def Let_def

lemma two_clients_eval:
  "clients two_clients = [0, 1]"
  "socket two_clients 0 = Some OPEN"
  "socket two_clients 1 = Some OPEN"
  "listeners two_clients 0"
  "\<not> exited two_clients" "\<not> crashed two_clients"
  by (simp_all add: two_clients_def demo_defs)

lemma three_clients_eval:
  "clients three_clients = [0, 1, 2]"
  "socket three_clients 0 = Some OPEN"
  "socket three_clients 1 = Some OPEN"
  "socket three_clients 2 = Some OPEN"
  "listeners three_clients 0"
  "\<not> exited three_clients" "\<not> crashed three_clients"
  "dates three_clients = 3"
  by (simp_all add: three_clients_def demo_defs)

lemma scenario_1:
  "emitted two_clients (step demo_env (Message 0 ''{\"a\":1}'') two_clients) =
     [Send 0 (Echo (JObject [(''a'', JNumber 1)]) 1014) Delivered,
      Send 1 (Broadcast (JObject [(''a'', JNumber 1)]) 1021) Failed]"
  by (simp add: two_clients_def demo_defs)

lemma three_clients_message:
  "emitted three_clients (step demo_env (Message 0 ''{\"a\":1}'') three_clients) =
     [Send 0 (Echo (JObject [(''a'', JNumber 1)]) 1021) Delivered,
      Send 1 (Broadcast (JObject [(''a'', JNumber 1)]) 1028) Failed,
      Send 2 (Broadcast (JObject [(''a'', JNumber 1)]) 1035) Delivered]"
  by (simp add: three_clients_def demo_defs)

lemma relayed_eval:
  "listeners relayed 1" "\<not> listeners relayed 5" "\<not> exited relayed" "\<not> crashed relayed"
  "listening relayed"
  "sends_to 1 (trace relayed) =
     [Welcome ''Connected to WebSocket server'' 1007, Broadcast (JObject [(''a'', JNumber 1)]) 1021]"
  "sends_to 0 (trace relayed) =
     [Welcome ''Connected to WebSocket server'' 1000, Echo (JObject [(''a'', JNumber 1)]) 1014]"
  by (simp_all add: relayed_def demo_defs)

lemma one_client_eval:
  "timers one_client = [(0, 30000)]" "\<not> exited one_client" "\<not> crashed one_client"
  "listening one_client"
  "next_conn one_client = 1" "socket one_client 0 = Some OPEN"
  by (simp_all add: one_client_def demo_defs)

lemma closing_down_eval:
  "socket closing_down 0 = Some CLOSING" "socket closing_down 1 = Some CLOSING"
  "\<not> listening closing_down" "\<not> exited closing_down" "\<not> crashed closing_down"
  "listeners closing_down 0"
  "clients closing_down = [0, 1]" "next_conn closing_down = 2"
  by (simp_all add: closing_down_def demo_defs on_SIGINT_def wss_close_def ws_close_def)

lemma late_exit_eval:
  "exited late_exit" "clients late_exit = [0]"
  by (simp_all add: late_exit_def demo_defs on_SIGINT_def wss_close_def ws_close_def
        emit_close_def on_close_def clients_delete_def wss_close_callback_def)

lemma closed_twice_eval:
  "socket closed_twice 1 = Some CLOSED" "socket closed_twice 0 = Some OPEN"
  "clients closed_twice = [0]" "timers closed_twice = [(0, 29999)]"
  "trace closed_twice =
     [Send 0 (Welcome ''Connected to WebSocket server'' 1000) Delivered,
      Send 1 (Welcome ''Connected to WebSocket server'' 1007) Failed,
      ClearInterval 1]"
  by (simp_all add: closed_twice_def demo_defs emit_close_def on_close_def clients_delete_def
        tick_def due_def countdown_def)

subsection \<open>A payload that parses\<close>

lemma length_stamped [simp]: "length (stamped E m k rs) = length rs"
  by (induction rs arbitrary: k) simp_all

lemma sends_to_append: "sends_to r (xs @ ys) = sends_to r xs @ sends_to r ys"
  by (induction r xs rule: sends_to.induct) simp_all

lemma stamps_append: "stamps (xs @ ys) = stamps xs @ stamps ys"
  by (induction xs rule: stamps.induct) simp_all

lemma sends_to_stamped_other: "r \<notin> set rs \<Longrightarrow> sends_to r (stamped E m k rs) = []"
  by (induction rs arbitrary: k) auto

lemma sends_to_stamped_member:
  "distinct rs \<Longrightarrow> r \<in> set rs \<Longrightarrow> \<exists>t. sends_to r (stamped E m k rs) = [Broadcast m t]"
  by (induction rs arbitrary: k) (auto simp: sends_to_stamped_other)

lemma stamped_member:
  "r \<in> set rs \<Longrightarrow> \<exists>t. Send r (Broadcast m t) (open_outcome E r) \<in> set (stamped E m k rs)"
  by (induction rs arbitrary: k) auto

lemma stamped_only_broadcasts:
  "a \<in> set (stamped E m k rs) \<Longrightarrow>
   \<exists>r t. r \<in> set rs \<and> a = Send r (Broadcast m t) (open_outcome E r)"
proof (induction rs arbitrary: k)
  case Nil
  then show ?case by simp
next
  case (Cons x rs)
  from Cons.prems have "a = Send x (Broadcast m (Date_now E k)) (open_outcome E x)
      \<or> a \<in> set (stamped E m (Suc k) rs)"
    by simp
  then show ?case
  proof
    assume "a = Send x (Broadcast m (Date_now E k)) (open_outcome E x)"
    then show ?thesis by auto
  next
    assume "a \<in> set (stamped E m (Suc k) rs)"
    from Cons.IH [OF this] obtain r t
      where "r \<in> set rs" "a = Send r (Broadcast m t) (open_outcome E r)"
      by blast
    then show ?thesis by auto
  qed
qed

lemma stamps_stamped: "stamps (stamped E m k rs) = map (Date_now E) [k..<k + length rs]"
proof (induction rs arbitrary: k)
  case Nil
  show ?case by simp
next
  case (Cons r rs)
  have "[k..<k + length (r # rs)] = k # [Suc k..<Suc k + length rs]"
    by (simp add: upt_rec)
  then show ?case by (simp add: Cons.IH)
qed

lemma attempt_stamped:
  "Date_now E' = Date_now E \<Longrightarrow> map attempt (stamped E' m k rs) = map attempt (stamped E m k rs)"
  by (induction rs arbitrary: k) simp_all

lemma reached_all: "\<forall>r \<in> set rs. \<not> send_raises E r \<Longrightarrow> reached E rs = rs"
  by (induction rs) simp_all

lemma reached_subset: "set (reached E rs) \<subseteq> set rs"
  by (induction rs) auto

lemma recipients_set:
  "reg_ok s \<Longrightarrow> set (recipients c s) = {r. r \<noteq> c \<and> socket s r = Some OPEN}"
  by (auto simp: recipients_def reg_ok_def)

lemma recipients_distinct: "reg_ok s \<Longrightarrow> distinct (recipients c s)"
  by (simp add: recipients_def reg_ok_def)

lemma recipients_length:
  "reg_ok s \<Longrightarrow> length (recipients c s) = card {r. r \<noteq> c \<and> socket s r = Some OPEN}"
  using distinct_card [OF recipients_distinct, of s c] by (simp add: recipients_set)

text \<open>What a message that parses adds to the trace, whatever the transports do.\<close>

lemma message_emitted_any:
  assumes "JSON_parse E d = Some P" and "\<not> exited s" and "\<not> crashed s" and "\<not> thrown s"
    and "listeners s c" and "socket s c = Some OPEN \<or> socket s c = Some CLOSING"
  shows "emitted s (step E (Message c d) s) =
           Send c (Echo P (Date_now E (dates s))) (send_outcome E s c)
             # (if send_raises E c then []
                else stamped E P (Suc (dates s)) (reached E (recipients c s)))
             @ (if send_raises E c \<or> (\<exists>r \<in> set (recipients c s). send_raises E r)
                then [Send c (Error ''Invalid JSON format'') (send_outcome E s c)] else [])
             @ (if send_raises E c then [Uncaught] else [])"
proof -
  have st: "step E (Message c d) s = uncaught (on_message E c d s)"
    using assms(2,3,5,6) by (rule step_Message)
  show ?thesis
    unfolding st
    by (rule emitted_append)
       (simp add: on_message_trace_Some [OF assms(1) assms(4)] on_message_thrown [OF assms(4)])
qed

text \<open>The same when no send throws.\<close>

lemma message_emitted:
  assumes "JSON_parse E d = Some P" and "\<not> exited s" and "\<not> crashed s" and "\<not> thrown s"
    and "listeners s c" and "socket s c = Some OPEN \<or> socket s c = Some CLOSING"
    and "\<not> send_raises E c" and "\<forall>r. socket s r = Some OPEN \<longrightarrow> \<not> send_raises E r"
  shows "emitted s (step E (Message c d) s) =
           Send c (Echo P (Date_now E (dates s))) (send_outcome E s c)
             # stamped E P (Suc (dates s)) (recipients c s)"
proof -
  have n: "\<forall>r \<in> set (recipients c s). \<not> send_raises E r"
    using assms(8) by (simp add: recipients_def)
  show ?thesis
    using message_emitted_any [OF assms(1-6)] n assms(7) by (simp add: reached_all)
qed

text \<open>
  Claim C1. In any state the server can reach, when a payload that parses to \<open>P\<close>
  arrives from an open connection \<open>c\<close> and no send on an open connection throws: \<open>c\<close> is
  sent exactly one notification, the echo of \<open>P\<close>; every other connection is sent
  exactly one broadcast of \<open>P\<close> if it is open and nothing if it is not; and the handler
  makes \<open>1 + N\<close> calls in all, \<open>N\<close> being the number of other open connections. With
  \<open>N = 0\<close> the echo is the only send.
\<close>

theorem C1_one_echo_N_broadcasts:
  assumes "s = run E evs init" and "\<not> exited s" and "\<not> crashed s"
    and "socket s c = Some OPEN"
    and "JSON_parse E d = Some P"
    and "\<forall>r. socket s r = Some OPEN \<longrightarrow> \<not> send_raises E r"
    and "out = emitted s (step E (Message c d) s)"
  shows "(\<exists>t. sends_to c out = [Echo P t])
         \<and> (\<forall>r. r \<noteq> c \<longrightarrow>
               (\<exists>t. sends_to r out = (if socket s r = Some OPEN then [Broadcast P t] else [])))
         \<and> length out = 1 + card {r. r \<noteq> c \<and> socket s r = Some OPEN}"
proof -
  have reg: "reg_ok s"
    unfolding assms(1) by (rule reg_ok_reachable)
  have lis: "listeners s c"
    using reg assms(3,4) by (rule reg_ok_listeners)
  have nr: "\<not> send_raises E c" using assms(4,6) by blast
  have oc: "socket s c = Some OPEN \<or> socket s c = Some CLOSING" using assms(4) by simp
  have out: "out = Send c (Echo P (Date_now E (dates s))) (send_outcome E s c)
                     # stamped E P (Suc (dates s)) (recipients c s)"
    unfolding assms(7)
    by (rule message_emitted [OF assms(5) assms(2) assms(3) reg_ok_not_thrown [OF reg] lis oc nr
          assms(6)])
  have notin: "c \<notin> set (recipients c s)"
    by (simp add: recipients_def)
  have echo: "\<exists>t. sends_to c out = [Echo P t]"
    by (simp add: out sends_to_stamped_other [OF notin])
  have bc: "\<exists>t. sends_to r out = (if socket s r = Some OPEN then [Broadcast P t] else [])"
    if "r \<noteq> c" for r
  proof (cases "socket s r = Some OPEN")
    case True
    then have "r \<in> set (recipients c s)"
      using that by (simp add: recipients_set [OF reg])
    from sends_to_stamped_member [OF recipients_distinct [OF reg] this]
    show ?thesis using that True by (simp add: out)
  next
    case False
    then have "r \<notin> set (recipients c s)"
      by (simp add: recipients_set [OF reg])
    then show ?thesis using that False by (simp add: out sends_to_stamped_other)
  qed
  have len: "length out = 1 + card {r. r \<noteq> c \<and> socket s r = Some OPEN}"
    by (simp add: out recipients_length [OF reg])
  show ?thesis using echo bc len by blast
qed

lemma demo_env_eval:
  "JSON_parse demo_env ''{\"a\":1}'' = Some (JObject [(''a'', JNumber 1)])"
  "JSON_parse demo_env ''not-json'' = None"
  "\<not> send_raises demo_env r" "send_ok demo_env 0" "\<not> send_ok demo_env 1" "send_ok demo_env 2"
  "Date_now demo_env k = 1000 + 7 * k"
  by (simp_all add: demo_env_def demo_parse_def)

theorem C1_witness:
  "\<not> exited two_clients \<and> \<not> crashed two_clients \<and> socket two_clients 0 = Some OPEN
   \<and> JSON_parse demo_env ''{\"a\":1}'' = Some (JObject [(''a'', JNumber 1)])
   \<and> (\<exists>t. sends_to 0 (emitted two_clients (step demo_env (Message 0 ''{\"a\":1}'') two_clients))
            = [Echo (JObject [(''a'', JNumber 1)]) t])
   \<and> (\<exists>t. sends_to 1 (emitted two_clients (step demo_env (Message 0 ''{\"a\":1}'') two_clients))
            = [Broadcast (JObject [(''a'', JNumber 1)]) t])
   \<and> length (emitted two_clients (step demo_env (Message 0 ''{\"a\":1}'') two_clients))
       = 1 + card {r. r \<noteq> 0 \<and> socket two_clients r = Some OPEN}"
proof -
  have h2: "\<not> exited two_clients" and h3: "\<not> crashed two_clients"
    and h4: "socket two_clients 0 = Some OPEN"
    and o1: "socket two_clients 1 = Some OPEN"
    by (rule two_clients_eval)+
  have h5: "JSON_parse demo_env ''{\"a\":1}'' = Some (JObject [(''a'', JNumber 1)])"
    by (rule demo_env_eval)
  have h6: "\<forall>r. socket two_clients r = Some OPEN \<longrightarrow> \<not> send_raises demo_env r"
    by (simp add: demo_env_eval)
  have h1: "two_clients = run demo_env [Connection, Connection] init"
    by (simp add: two_clients_def)
  note c1 = C1_one_echo_N_broadcasts [OF h1 h2 h3 h4 h5 h6 refl]
  from c1 have all: "\<forall>r. r \<noteq> 0 \<longrightarrow> (\<exists>t. sends_to r (emitted two_clients (step demo_env (Message 0 ''{\"a\":1}'') two_clients))
            = (if socket two_clients r = Some OPEN then [Broadcast (JObject [(''a'', JNumber 1)]) t] else []))"
    by (rule conjunct1 [OF conjunct2])
  have "\<exists>t. sends_to 1 (emitted two_clients (step demo_env (Message 0 ''{\"a\":1}'') two_clients))
            = (if socket two_clients 1 = Some OPEN then [Broadcast (JObject [(''a'', JNumber 1)]) t] else [])"
    using all [rule_format, of 1] by simp
  then have b1: "\<exists>t. sends_to 1 (emitted two_clients (step demo_env (Message 0 ''{\"a\":1}'') two_clients))
            = [Broadcast (JObject [(''a'', JNumber 1)]) t]"
    using o1 by simp
  show ?thesis
    using conjunct1 [OF c1] conjunct2 [OF conjunct2 [OF c1]] b1 h2 h3 h4 h5 by (intro conjI)
qed

text \<open>
  Claim C3. In any state the server can reach, the first call of the handler for a
  payload that parses is the echo to the sender, so every broadcast of that message
  comes after it, and no later call of that handler is an echo. The trace of a run is
  the trace before it followed by what each event added, in the order of the events: a
  later message's sends never precede an earlier message's.
\<close>

theorem C3_echo_first_and_arrival_order:
  assumes "s = run E evs0 init"
  shows "(\<not> exited s \<and> \<not> crashed s \<and> listeners s c
            \<and> (socket s c = Some OPEN \<or> socket s c = Some CLOSING)
            \<and> JSON_parse E d = Some P \<longrightarrow>
          (\<exists>t ok rest. emitted s (step E (Message c d) s) = Send c (Echo P t) ok # rest
             \<and> (\<forall>r n ok'. Send r n ok' \<in> set rest \<longrightarrow> \<not> is_echo P n)))
         \<and> trace (run E evs s) = trace s @ concat (outputs E evs s)"
proof -
  have reg: "reg_ok s" unfolding assms by (rule reg_ok_reachable)
  have a: "\<exists>t ok rest. emitted s (step E (Message c d) s) = Send c (Echo P t) ok # rest
             \<and> (\<forall>r n ok'. Send r n ok' \<in> set rest \<longrightarrow> \<not> is_echo P n)"
    if h: "\<not> exited s" "\<not> crashed s" "listeners s c"
      "socket s c = Some OPEN \<or> socket s c = Some CLOSING" "JSON_parse E d = Some P"
  proof -
    let ?rest = "(if send_raises E c then []
                else stamped E P (Suc (dates s)) (reached E (recipients c s)))
             @ (if send_raises E c \<or> (\<exists>r \<in> set (recipients c s). send_raises E r)
                then [Send c (Error ''Invalid JSON format'') (send_outcome E s c)] else [])
             @ (if send_raises E c then [Uncaught] else [])"
    have e: "emitted s (step E (Message c d) s) =
               Send c (Echo P (Date_now E (dates s))) (send_outcome E s c) # ?rest"
      using message_emitted_any [OF h(5) h(1) h(2) reg_ok_not_thrown [OF reg] h(3) h(4)] .
    have "\<not> is_echo P n" if "Send r n ok' \<in> set ?rest" for r n ok'
    proof -
      from that have "Send r n ok' \<in> set (stamped E P (Suc (dates s)) (reached E (recipients c s)))
          \<or> n = Error ''Invalid JSON format''"
        by (auto split: if_splits)
      then show ?thesis
      proof
        assume "Send r n ok' \<in> set (stamped E P (Suc (dates s)) (reached E (recipients c s)))"
        from stamped_only_broadcasts [OF this] show ?thesis by auto
      next
        assume "n = Error ''Invalid JSON format''"
        then show ?thesis by simp
      qed
    qed
    then show ?thesis using e by blast
  qed
  have b: "trace (run E evs s) = trace s @ concat (outputs E evs s)"
    using reg
  proof (induction evs arbitrary: s)
    case Nil
    show ?case by simp
  next
    case (Cons ev evs)
    show ?case
      using Cons.IH [OF reg_ok_step [OF Cons.prems, of E ev]]
      by (simp add: trace_step [OF Cons.prems, of E ev])
  qed
  show ?thesis
  proof (intro conjI impI)
    assume "\<not> exited s \<and> \<not> crashed s \<and> listeners s c
            \<and> (socket s c = Some OPEN \<or> socket s c = Some CLOSING)
            \<and> JSON_parse E d = Some P"
    then show "\<exists>t ok rest. emitted s (step E (Message c d) s) = Send c (Echo P t) ok # rest
             \<and> (\<forall>r n ok'. Send r n ok' \<in> set rest \<longrightarrow> \<not> is_echo P n)"
      using a by simp
  next
    show "trace (run E evs s) = trace s @ concat (outputs E evs s)" by (rule b)
  qed
qed

theorem C3_witness:
  "\<not> exited two_clients \<and> \<not> crashed two_clients \<and> listeners two_clients 0
   \<and> (socket two_clients 0 = Some OPEN \<or> socket two_clients 0 = Some CLOSING)
   \<and> JSON_parse demo_env ''{\"a\":1}'' = Some (JObject [(''a'', JNumber 1)])
   \<and> (\<exists>t ok rest. emitted two_clients (step demo_env (Message 0 ''{\"a\":1}'') two_clients)
          = Send 0 (Echo (JObject [(''a'', JNumber 1)]) t) ok # rest)
   \<and> emitted two_clients (step demo_env (Message 0 ''{\"a\":1}'') two_clients) =
       [Send 0 (Echo (JObject [(''a'', JNumber 1)]) 1014) Delivered,
        Send 1 (Broadcast (JObject [(''a'', JNumber 1)]) 1021) Failed]
   \<and> trace (run demo_env [Message 0 ''{\"a\":1}'', Message 0 ''{\"x\":2}''] two_clients)
       = trace two_clients
         @ concat (outputs demo_env [Message 0 ''{\"a\":1}'', Message 0 ''{\"x\":2}''] two_clients)"
proof -
  have h: "\<not> exited two_clients \<and> \<not> crashed two_clients \<and> listeners two_clients 0
      \<and> (socket two_clients 0 = Some OPEN \<or> socket two_clients 0 = Some CLOSING)
      \<and> JSON_parse demo_env ''{\"a\":1}'' = Some (JObject [(''a'', JNumber 1)])"
    by (simp add: two_clients_eval demo_env_eval)
  have r: "two_clients = run demo_env [Connection, Connection] init"
    by (simp add: two_clients_def)
  note c3 = C3_echo_first_and_arrival_order [OF r, of 0 "''{\"a\":1}''"
      "JObject [(''a'', JNumber 1)]" "[Message 0 ''{\"a\":1}'', Message 0 ''{\"x\":2}'']"]
  from mp [OF conjunct1 [OF c3] h]
  have e: "\<exists>t ok rest. emitted two_clients (step demo_env (Message 0 ''{\"a\":1}'') two_clients)
          = Send 0 (Echo (JObject [(''a'', JNumber 1)]) t) ok # rest"
    by blast
  show ?thesis
    using h e scenario_1 conjunct2 [OF c3] by (intro conjI) simp_all
qed

subsection \<open>A recipient whose transport fails\<close>

lemma uncaught_on_message:
  "\<not> thrown s \<Longrightarrow> \<not> send_raises E c \<Longrightarrow> uncaught (on_message E c d s) = on_message E c d s"
  using on_message_thrown [of s E c d] by (simp add: uncaught_def)

text \<open>
  The welcome is sent outside any \<open>try\<close> block, so a connection whose send throws ends
  the process when it is accepted: in a process that goes on, no send to a connection
  it has accepted throws.
\<close>

lemma never_raises_step:
  assumes "reg_ok s" and "crashed s \<or> (\<forall>r. socket s r \<noteq> None \<longrightarrow> \<not> send_raises E r)"
  shows "crashed (step E ev s) \<or> (\<forall>r. socket (step E ev s) r \<noteq> None \<longrightarrow> \<not> send_raises E r)"
proof (rule step_cases [where Q = "\<lambda>x. crashed x \<or> (\<forall>r. socket x r \<noteq> None \<longrightarrow> \<not> send_raises E r)"])
  assume "\<not> crashed s"
  then show "crashed (uncaught (on_connection E (next_conn s) (accept s))) \<or>
    (\<forall>r. socket (uncaught (on_connection E (next_conn s) (accept s))) r \<noteq> None \<longrightarrow> \<not> send_raises E r)"
    using assms(2) by auto
next
  fix c d
  assume "\<not> crashed s"
  then show "crashed (uncaught (on_message E c d s)) \<or>
    (\<forall>r. socket (uncaught (on_message E c d s)) r \<noteq> None \<longrightarrow> \<not> send_raises E r)"
    using assms(2) by simp
next
  fix c
  assume "\<not> crashed s" "socket s c = Some OPEN"
  then show "crashed (s\<lparr>socket := (socket s)(c \<mapsto> CLOSING)\<rparr>) \<or>
    (\<forall>r. socket (s\<lparr>socket := (socket s)(c \<mapsto> CLOSING)\<rparr>) r \<noteq> None \<longrightarrow> \<not> send_raises E r)"
    using assms(2) by auto
next
  fix c
  assume "\<not> crashed s" "socket s c = Some OPEN \<or> socket s c = Some CLOSING"
  then show "crashed (emit_close c s) \<or>
    (\<forall>r. socket (emit_close c s) r \<noteq> None \<longrightarrow> \<not> send_raises E r)"
    using assms(2) by auto
next
  assume "\<not> crashed s"
  then show "crashed (tick s) \<or> (\<forall>r. socket (tick s) r \<noteq> None \<longrightarrow> \<not> send_raises E r)"
    using assms(2) by simp
next
  assume "\<not> crashed s"
  then show "crashed (on_SIGINT s) \<or> (\<forall>r. socket (on_SIGINT s) r \<noteq> None \<longrightarrow> \<not> send_raises E r)"
    using assms(2) by (auto simp: on_SIGINT_socket split: if_splits)
next
  assume "\<not> crashed s"
  then show "crashed (wss_close_callback s) \<or>
    (\<forall>r. socket (wss_close_callback s) r \<noteq> None \<longrightarrow> \<not> send_raises E r)"
    using assms(2) by simp
next
  show "crashed s \<or> (\<forall>r. socket s r \<noteq> None \<longrightarrow> \<not> send_raises E r)" by (rule assms(2))
qed

lemma never_raises_run:
  "reg_ok s \<Longrightarrow> crashed s \<or> (\<forall>r. socket s r \<noteq> None \<longrightarrow> \<not> send_raises E r) \<Longrightarrow>
   crashed (run E evs s) \<or> (\<forall>r. socket (run E evs s) r \<noteq> None \<longrightarrow> \<not> send_raises E r)"
proof (induction evs arbitrary: s)
  case Nil
  then show ?case by simp
next
  case (Cons ev evs)
  from Cons.IH [OF reg_ok_step [OF Cons.prems(1)] never_raises_step [OF Cons.prems]]
  show ?case by simp
qed

lemma never_raises:
  assumes "s = run E evs init" and "\<not> crashed s" and "socket s r = Some st"
  shows "\<not> send_raises E r"
proof -
  have "crashed s \<or> (\<forall>r. socket s r \<noteq> None \<longrightarrow> \<not> send_raises E r)"
    unfolding assms(1) by (rule never_raises_run [OF reg_ok_init]) (simp add: init_def)
  then show ?thesis using assms(2,3) by auto
qed

text \<open>
  Claim C4. In any state the server can reach, let a payload that parses to \<open>P\<close> arrive
  from \<open>c\<close> while \<open>f\<close> is another open connection whose transport fails. The broadcast
  to \<open>f\<close> is attempted and fails; every other open connection is still sent the
  broadcast, delivered if its own transport works; the sender is sent nothing but the
  echo; who is sent what, and in which order, is the same as when every transport
  works; and the process goes on.
\<close>

theorem C4_send_failure_isolated:
  assumes "s = run E evs init" and "\<not> exited s" and "\<not> crashed s"
    and "JSON_parse E d = Some P"
    and "socket s c = Some OPEN \<or> socket s c = Some CLOSING"
    and "out = emitted s (step E (Message c d) s)"
    and "f \<noteq> c" and "socket s f = Some OPEN" and "\<not> send_ok E f"
  shows "(\<exists>t. Send f (Broadcast P t) Failed \<in> set out)
         \<and> (\<forall>r. r \<noteq> c \<and> r \<noteq> f \<and> socket s r = Some OPEN \<longrightarrow>
               (\<exists>t. Send r (Broadcast P t) (if send_ok E r then Delivered else Failed) \<in> set out))
         \<and> (\<forall>n ok. Send c n ok \<in> set out \<longrightarrow> is_echo P n)
         \<and> map attempt out =
             map attempt (emitted s (step (E\<lparr>send_ok := (\<lambda>r. True)\<rparr>) (Message c d) s))
         \<and> \<not> crashed (step E (Message c d) s)"
proof -
  let ?E' = "E\<lparr>send_ok := (\<lambda>r. True)\<rparr>"
  have reg: "reg_ok s" unfolding assms(1) by (rule reg_ok_reachable)
  have nt: "\<not> thrown s" using reg by (rule reg_ok_not_thrown)
  obtain st where st: "socket s c = Some st" using assms(5) by blast
  have lis: "listeners s c" using reg assms(3) st by (rule reg_ok_listeners)
  have nrc: "\<not> send_raises E c" using assms(1,3) st by (rule never_raises)
  have nro: "\<forall>r. socket s r = Some OPEN \<longrightarrow> \<not> send_raises E r"
    using never_raises [OF assms(1,3)] by blast
  have oo: "open_outcome E r = (if send_ok E r then Delivered else Failed)"
    if "socket s r = Some OPEN" for r
    using nro that by (simp add: open_outcome_def)
  have out: "out = Send c (Echo P (Date_now E (dates s))) (send_outcome E s c)
                     # stamped E P (Suc (dates s)) (recipients c s)"
    unfolding assms(6) using assms(4) assms(2) assms(3) nt lis assms(5) nrc nro
    by (rule message_emitted)
  have p': "JSON_parse ?E' d = Some P" using assms(4) by simp
  have nrc': "\<not> send_raises ?E' c" using nrc by simp
  have nro': "\<forall>r. socket s r = Some OPEN \<longrightarrow> \<not> send_raises ?E' r" using nro by simp
  have out': "emitted s (step ?E' (Message c d) s) =
                Send c (Echo P (Date_now ?E' (dates s))) (send_outcome ?E' s c)
                     # stamped ?E' P (Suc (dates s)) (recipients c s)"
    using p' assms(2) assms(3) nt lis assms(5) nrc' nro' by (rule message_emitted)
  have mem: "\<exists>t. Send r (Broadcast P t) (if send_ok E r then Delivered else Failed) \<in> set out"
    if "r \<noteq> c" "socket s r = Some OPEN" for r
  proof -
    have "r \<in> set (recipients c s)" using that by (simp add: recipients_set [OF reg])
    from stamped_member [OF this, of P E "Suc (dates s)"] show ?thesis
      by (auto simp: out oo [OF that(2)])
  qed
  have a: "\<exists>t. Send f (Broadcast P t) Failed \<in> set out"
    using mem [OF assms(7) assms(8)] assms(9) by simp
  have b: "\<forall>r. r \<noteq> c \<and> r \<noteq> f \<and> socket s r = Some OPEN \<longrightarrow>
               (\<exists>t. Send r (Broadcast P t) (if send_ok E r then Delivered else Failed) \<in> set out)"
    using mem by blast
  have c: "is_echo P n" if "Send c n ok \<in> set out" for n ok
  proof -
    from that have "Send c n ok = Send c (Echo P (Date_now E (dates s))) (send_outcome E s c)
        \<or> Send c n ok \<in> set (stamped E P (Suc (dates s)) (recipients c s))"
      by (simp add: out)
    then show ?thesis
    proof
      assume "Send c n ok = Send c (Echo P (Date_now E (dates s))) (send_outcome E s c)"
      then show ?thesis by simp
    next
      assume "Send c n ok \<in> set (stamped E P (Suc (dates s)) (recipients c s))"
      from stamped_only_broadcasts [OF this] have "c \<in> set (recipients c s)" by auto
      then show ?thesis by (simp add: recipients_def)
    qed
  qed
  have c': "\<forall>n ok. Send c n ok \<in> set out \<longrightarrow> is_echo P n" using c by blast
  have d: "map attempt out = map attempt (emitted s (step ?E' (Message c d) s))"
    unfolding out out' using attempt_stamped [of ?E' E P "Suc (dates s)" "recipients c s"]
    by simp
  have "step E (Message c d) s = on_message E c d s"
    using assms(2,3,5) lis by (simp add: step_def uncaught_on_message [OF nt nrc])
  then have e: "\<not> crashed (step E (Message c d) s)" using assms(3) by simp
  show ?thesis using a b c' d e by (intro conjI)
qed

theorem C4_witness:
  "\<not> exited three_clients \<and> \<not> crashed three_clients
   \<and> JSON_parse demo_env ''{\"a\":1}'' = Some (JObject [(''a'', JNumber 1)])
   \<and> socket three_clients 0 = Some OPEN
   \<and> (1::nat) \<noteq> 0 \<and> socket three_clients 1 = Some OPEN \<and> \<not> send_ok demo_env 1
   \<and> socket three_clients 2 = Some OPEN \<and> send_ok demo_env 2
   \<and> (\<exists>t. Send 1 (Broadcast (JObject [(''a'', JNumber 1)]) t) Failed
          \<in> set (emitted three_clients (step demo_env (Message 0 ''{\"a\":1}'') three_clients)))
   \<and> (\<exists>t. Send 2 (Broadcast (JObject [(''a'', JNumber 1)]) t) Delivered
          \<in> set (emitted three_clients (step demo_env (Message 0 ''{\"a\":1}'') three_clients)))
   \<and> map attempt (emitted three_clients (step demo_env (Message 0 ''{\"a\":1}'') three_clients))
       = map attempt (emitted three_clients
           (step (demo_env\<lparr>send_ok := (\<lambda>r. True)\<rparr>) (Message 0 ''{\"a\":1}'') three_clients))
   \<and> \<not> crashed (step demo_env (Message 0 ''{\"a\":1}'') three_clients)
   \<and> emitted three_clients (step demo_env (Message 0 ''{\"a\":1}'') three_clients) =
       [Send 0 (Echo (JObject [(''a'', JNumber 1)]) 1021) Delivered,
        Send 1 (Broadcast (JObject [(''a'', JNumber 1)]) 1028) Failed,
        Send 2 (Broadcast (JObject [(''a'', JNumber 1)]) 1035) Delivered]"
proof -
  let ?out = "emitted three_clients (step demo_env (Message 0 ''{\"a\":1}'') three_clients)"
  let ?P = "JObject [(''a'', JNumber 1)]"
  have h0: "three_clients = run demo_env [Connection, Connection, Connection] init"
    by (simp add: three_clients_def)
  have h1: "JSON_parse demo_env ''{\"a\":1}'' = Some ?P"
    by (rule demo_env_eval)
  have h2: "\<not> exited three_clients" and h3: "\<not> crashed three_clients"
    and h4: "socket three_clients 0 = Some OPEN"
    and h8: "socket three_clients 1 = Some OPEN"
    and o2: "socket three_clients 2 = Some OPEN"
    by (rule three_clients_eval)+
  have h4': "socket three_clients 0 = Some OPEN \<or> socket three_clients 0 = Some CLOSING"
    using h4 by simp
  have h7: "(1::nat) \<noteq> 0" by simp
  have h9: "\<not> send_ok demo_env 1" and ok2: "send_ok demo_env 2"
    by (rule demo_env_eval)+
  note c4 = C4_send_failure_isolated [OF h0 h2 h3 h1 h4' refl h7 h8 h9]
  have a: "\<exists>t. Send 1 (Broadcast ?P t) Failed \<in> set ?out"
    using c4 by (rule conjunct1)
  have "\<forall>r. r \<noteq> 0 \<and> r \<noteq> 1 \<and> socket three_clients r = Some OPEN \<longrightarrow>
               (\<exists>t. Send r (Broadcast ?P t) (if send_ok demo_env r then Delivered else Failed) \<in> set ?out)"
    using c4 by (rule conjunct1 [OF conjunct2])
  from this [rule_format, of 2] have b: "\<exists>t. Send 2 (Broadcast ?P t) Delivered \<in> set ?out"
    using o2 ok2 by simp
  have c: "map attempt ?out = map attempt (emitted three_clients
           (step (demo_env\<lparr>send_ok := (\<lambda>r. True)\<rparr>) (Message 0 ''{\"a\":1}'') three_clients))"
    using c4 by (rule conjunct1 [OF conjunct2 [OF conjunct2 [OF conjunct2]]])
  have d: "\<not> crashed (step demo_env (Message 0 ''{\"a\":1}'') three_clients)"
    using c4 by (rule conjunct2 [OF conjunct2 [OF conjunct2 [OF conjunct2]]])
  show ?thesis
    using h2 h3 h1 h4 h7 h8 h9 o2 ok2 a b c d three_clients_message by (intro conjI)
qed

subsection \<open>Timestamps\<close>

text \<open>
  Claim C9. Each notification of one inbound message carries a clock reading of its
  own: the \<open>k\<close>-th timestamp of the handler is the \<open>k\<close>-th reading after those already
  made. So when the clock never repeats a reading, the echo and the broadcasts, and any
  two broadcasts, carry different timestamps.
\<close>

theorem C9_timestamp_per_notification:
  assumes "JSON_parse E d = Some P" and "\<not> exited s" and "\<not> crashed s" and "\<not> thrown s"
    and "listeners s c" and "socket s c = Some OPEN \<or> socket s c = Some CLOSING"
    and "out = emitted s (step E (Message c d) s)"
  shows "stamps out = map (Date_now E) [dates s..<dates s + length (stamps out)]
         \<and> (inj (Date_now E) \<longrightarrow> distinct (stamps out))
         \<and> ((\<forall>r. \<not> send_raises E r) \<longrightarrow> length (stamps out) = length out)"
proof -
  define rs where "rs = (if send_raises E c then [] else reached E (recipients c s))"
  have out: "out = Send c (Echo P (Date_now E (dates s))) (send_outcome E s c)
             # (if send_raises E c then []
                else stamped E P (Suc (dates s)) (reached E (recipients c s)))
             @ (if send_raises E c \<or> (\<exists>r \<in> set (recipients c s). send_raises E r)
                then [Send c (Error ''Invalid JSON format'') (send_outcome E s c)] else [])
             @ (if send_raises E c then [Uncaught] else [])"
    unfolding assms(7) using assms(1-6) by (rule message_emitted_any)
  have mid: "stamps (if send_raises E c then []
                else stamped E P (Suc (dates s)) (reached E (recipients c s)))
             = map (Date_now E) [Suc (dates s)..<Suc (dates s) + length rs]"
    by (simp add: rs_def stamps_stamped)
  have st: "stamps out = Date_now E (dates s) # map (Date_now E) [Suc (dates s)..<Suc (dates s) + length rs]"
    unfolding out by (simp add: stamps_append mid)
  have len: "length (stamps out) = Suc (length rs)"
    unfolding st by (simp only: length_Cons length_map length_upt add_diff_cancel_left')
  have upt: "[dates s..<dates s + Suc (length rs)] =
               dates s # [Suc (dates s)..<Suc (dates s) + length rs]"
  proof -
    have "dates s < dates s + Suc (length rs)" by simp
    then have "[dates s..<dates s + Suc (length rs)]
        = dates s # [Suc (dates s)..<dates s + Suc (length rs)]"
      by (rule upt_conv_Cons)
    moreover have "dates s + Suc (length rs) = Suc (dates s) + length rs" by simp
    ultimately show ?thesis by (simp only:)
  qed
  have eq: "stamps out = map (Date_now E) [dates s..<dates s + length (stamps out)]"
  proof -
    have "map (Date_now E) [dates s..<dates s + length (stamps out)]
        = map (Date_now E) (dates s # [Suc (dates s)..<Suc (dates s) + length rs])"
      by (simp only: len upt)
    also have "\<dots> = Date_now E (dates s) # map (Date_now E) [Suc (dates s)..<Suc (dates s) + length rs]"
      by (simp only: list.map)
    finally show ?thesis by (simp only: st)
  qed
  have di: "distinct (stamps out)" if "inj (Date_now E)"
  proof -
    have "distinct (map (Date_now E) [dates s..<dates s + length (stamps out)])"
      using that by (simp add: distinct_map inj_on_def)
    then show ?thesis using eq by simp
  qed
  have le: "length (stamps out) = length out" if "\<forall>r. \<not> send_raises E r"
    using that unfolding len by (simp add: out rs_def reached_all)
  show ?thesis using eq di le by blast
qed

theorem C9_witness:
  "JSON_parse demo_env ''{\"a\":1}'' = Some (JObject [(''a'', JNumber 1)])
   \<and> \<not> exited three_clients \<and> \<not> crashed three_clients \<and> \<not> thrown three_clients
   \<and> listeners three_clients 0
   \<and> (socket three_clients 0 = Some OPEN \<or> socket three_clients 0 = Some CLOSING)
   \<and> stamps (emitted three_clients (step demo_env (Message 0 ''{\"a\":1}'') three_clients))
       = map (Date_now demo_env) [dates three_clients..<dates three_clients
           + length (stamps (emitted three_clients
               (step demo_env (Message 0 ''{\"a\":1}'') three_clients)))]
   \<and> inj (Date_now demo_env)
   \<and> distinct (stamps (emitted three_clients (step demo_env (Message 0 ''{\"a\":1}'') three_clients)))
   \<and> stamps (emitted three_clients (step demo_env (Message 0 ''{\"a\":1}'') three_clients))
       = [1021, 1028, 1035]"
proof -
  have h1: "JSON_parse demo_env ''{\"a\":1}'' = Some (JObject [(''a'', JNumber 1)])"
    by (rule demo_env_eval)
  have h2: "\<not> exited three_clients" and h2': "\<not> crashed three_clients"
    and h3: "listeners three_clients 0"
    and h4: "socket three_clients 0 = Some OPEN"
    by (rule three_clients_eval)+
  have r: "reg_ok three_clients"
    unfolding three_clients_def by (rule reg_ok_reachable)
  have h2'': "\<not> thrown three_clients" using r by (rule reg_ok_not_thrown)
  have h4': "socket three_clients 0 = Some OPEN \<or> socket three_clients 0 = Some CLOSING"
    using h4 by simp
  have inj: "inj (Date_now demo_env)"
    by (simp add: demo_env_def inj_on_def)
  note c9 = C9_timestamp_per_notification [OF h1 h2 h2' h2'' h3 h4' refl]
  have d: "distinct (stamps (emitted three_clients (step demo_env (Message 0 ''{\"a\":1}'') three_clients)))"
    using mp [OF conjunct1 [OF conjunct2 [OF c9]] inj] .
  have v: "stamps (emitted three_clients (step demo_env (Message 0 ''{\"a\":1}'') three_clients))
       = [1021, 1028, 1035]"
    by (simp add: three_clients_message)
  show ?thesis
    using h1 h2 h2' h2'' h3 h4' conjunct1 [OF c9] inj d v by (intro conjI)
qed

subsection \<open>A payload that does not parse\<close>

text \<open>
  Claim C2. When a payload that \<open>JSON.parse\<close> rejects reaches the message handler of
  connection \<open>c\<close>, and the send to \<open>c\<close> does not throw, the handler makes exactly one
  call: it sends the error object with the fixed text "Invalid JSON format" to \<open>c\<close>.
  No echo, no broadcast and nothing to any other connection is sent; the ready states,
  the registry and the timers stay as they were, so an open connection stays open; and
  the process goes on.
\<close>

theorem C2_invalid_json_error_only:
  assumes "JSON_parse E d = None"
    and "\<not> exited s" and "\<not> crashed s" and "\<not> thrown s" and "listeners s c"
    and "socket s c = Some OPEN \<or> socket s c = Some CLOSING"
    and "\<not> send_raises E c"
  shows "emitted s (step E (Message c d) s) =
           [Send c (Error ''Invalid JSON format'') (send_outcome E s c)]
         \<and> socket (step E (Message c d) s) = socket s
         \<and> clients (step E (Message c d) s) = clients s
         \<and> timers (step E (Message c d) s) = timers s
         \<and> \<not> crashed (step E (Message c d) s)"
proof -
  have st: "step E (Message c d) s = uncaught (on_message E c d s)"
    using assms(2,3,5,6) by (rule step_Message)
  have th: "\<not> thrown (on_message E c d s)"
    using on_message_thrown [OF assms(4), of E c d] assms(7) by simp
  have "trace (uncaught (on_message E c d s)) =
          trace s @ [Send c (Error ''Invalid JSON format'') (send_outcome E s c)]"
    using on_message_trace_None [OF assms(1), of c s] th by simp
  then have "emitted s (uncaught (on_message E c d s)) =
          [Send c (Error ''Invalid JSON format'') (send_outcome E s c)]"
    by (rule emitted_append)
  then show ?thesis using th assms(3) by (simp add: st)
qed

theorem C2_witness:
  "JSON_parse demo_env ''not-json'' = None \<and> \<not> exited two_clients \<and> \<not> crashed two_clients
   \<and> \<not> thrown two_clients \<and> listeners two_clients 0
   \<and> (socket two_clients 0 = Some OPEN \<or> socket two_clients 0 = Some CLOSING)
   \<and> \<not> send_raises demo_env 0
   \<and> emitted two_clients (step demo_env (Message 0 ''not-json'') two_clients) =
        [Send 0 (Error ''Invalid JSON format'') Delivered]
   \<and> socket (step demo_env (Message 0 ''not-json'') two_clients) 0 = Some OPEN
   \<and> \<not> crashed (step demo_env (Message 0 ''not-json'') two_clients)"
proof -
  have h1: "JSON_parse demo_env ''not-json'' = None"
    by (rule demo_env_eval)
  have h2: "\<not> exited two_clients" and h2': "\<not> crashed two_clients"
    and h3: "listeners two_clients 0" and h4: "socket two_clients 0 = Some OPEN"
    by (rule two_clients_eval)+
  have r: "reg_ok two_clients"
    unfolding two_clients_def by (rule reg_ok_reachable)
  have h2'': "\<not> thrown two_clients" using r by (rule reg_ok_not_thrown)
  have h4': "socket two_clients 0 = Some OPEN \<or> socket two_clients 0 = Some CLOSING"
    using h4 by simp
  have h5: "\<not> send_raises demo_env 0" by (rule demo_env_eval)
  have ok: "send_outcome demo_env two_clients 0 = Delivered"
    by (simp add: send_outcome_def h4 demo_env_eval)
  note c2 = C2_invalid_json_error_only [OF h1 h2 h2' h2'' h3 h4' h5]
  have a: "emitted two_clients (step demo_env (Message 0 ''not-json'') two_clients) =
        [Send 0 (Error ''Invalid JSON format'') Delivered]"
    using conjunct1 [OF c2] ok by simp
  have b: "socket (step demo_env (Message 0 ''not-json'') two_clients) 0 = Some OPEN"
    using conjunct1 [OF conjunct2 [OF c2]] h4 by simp
  have c: "\<not> crashed (step demo_env (Message 0 ''not-json'') two_clients)"
    using conjunct2 [OF conjunct2 [OF conjunct2 [OF conjunct2 [OF c2]]]] .
  show ?thesis
    using h1 h2 h2' h2'' h3 h4' h5 a b c by (intro conjI)
qed

subsection \<open>The welcome\<close>

lemma sends_to_no_target: "r \<notin> targets xs \<Longrightarrow> sends_to r xs = []"
proof (induction r xs rule: sends_to.induct)
  case (2 c d n ok as)
  then show ?case by (auto simp: targets_def)
qed (auto simp: targets_def)

lemma targets_simps [simp]:
  "targets [] = {}"
  "targets (Send r n ok # xs) = insert r (targets xs)"
  "targets (Ping c # xs) = targets xs"
  "targets (CloseCall c # xs) = targets xs"
  "targets (ClearInterval c # xs) = targets xs"
  "targets (ServerClose # xs) = targets xs"
  "targets (Exit # xs) = targets xs"
  "targets (Uncaught # xs) = targets xs"
  by (auto simp: targets_def)

lemma targets_append [simp]: "targets (xs @ ys) = targets xs \<union> targets ys"
  by (auto simp: targets_def)

lemma targets_map_Ping [simp]: "targets (map Ping cs) = {}"
  by (induction cs) simp_all

lemma targets_map_CloseCall [simp]: "targets (map CloseCall cs) = {}"
  by (induction cs) simp_all

lemma targets_stamped [simp]: "targets (stamped E m k rs) = set rs"
  by (induction rs arbitrary: k) simp_all

text \<open>The message handler sends to the sender and to open connections of the registry.\<close>

lemma on_message_targets:
  assumes "\<not> thrown s"
  shows "\<exists>xs. trace (uncaught (on_message E c d s)) = trace s @ xs
           \<and> targets xs \<subseteq> insert c (set (recipients c s))
           \<and> (\<forall>a \<in> set xs. a = Uncaught \<or> (\<exists>r n ok. a = Send r n ok))"
proof (cases "JSON_parse E d")
  case None
  show ?thesis
    using on_message_trace_None [OF None, of c s] by auto
next
  case (Some P)
  have sub: "set (reached E (recipients c s)) \<subseteq> set (recipients c s)"
    by (rule reached_subset)
  have sends: "\<forall>a \<in> set (stamped E P k rs). a = Uncaught \<or> (\<exists>r n ok. a = Send r n ok)" for k rs
    using stamped_only_broadcasts [of _ E P k rs] by blast
  show ?thesis
    using on_message_trace_Some [OF Some assms, of c] on_message_thrown [OF assms, of E c d]
      sub sends
    by (auto split: if_splits)
qed

lemma welcome_ok_extend:
  assumes "welcome_ok s" and "\<not> crashed s"
    and "trace s' = trace s @ xs" and "listeners s' = listeners s"
    and "\<forall>r \<in> targets xs. listeners s r"
  shows "welcome_ok s'"
  unfolding welcome_ok_def
proof (intro allI conjI impI)
  fix r
  show "sends_to r (trace s') = [] \<or> (\<exists>m t rest. sends_to r (trace s') = Welcome m t # rest)"
  proof (cases "sends_to r (trace s) = []")
    case True
    then have "\<not> listeners s r" using assms(1) unfolding welcome_ok_def by blast
    then have "r \<notin> targets xs" using assms(5) by blast
    then show ?thesis using True by (simp add: assms(3) sends_to_append sends_to_no_target)
  next
    case False
    then obtain m t rest where "sends_to r (trace s) = Welcome m t # rest"
      using assms(1) unfolding welcome_ok_def by blast
    then show ?thesis by (simp add: assms(3) sends_to_append)
  qed
next
  fix r
  assume "listeners s' r"
  then have "sends_to r (trace s) \<noteq> []"
    using assms(1,4) unfolding welcome_ok_def by simp
  then show "sends_to r (trace s') \<noteq> []"
    by (simp add: assms(3) sends_to_append)
next
  fix r
  assume "\<not> listeners s' r \<and> \<not> crashed s'"
  then have n: "\<not> listeners s r" by (simp add: assms(4))
  then have "sends_to r (trace s) = []"
    using assms(1,2) unfolding welcome_ok_def by blast
  moreover have "r \<notin> targets xs" using n assms(5) by blast
  ultimately show "sends_to r (trace s') = []"
    by (simp add: assms(3) sends_to_append sends_to_no_target)
qed

lemma welcome_ok_init: "welcome_ok init"
  by (simp add: welcome_ok_def init_def)

lemma welcome_ok_step: "reg_ok s \<Longrightarrow> welcome_ok s \<Longrightarrow> welcome_ok (step E ev s)"
proof (rule step_cases [where Q = welcome_ok])
  assume r: "reg_ok s" and w: "welcome_ok s" and nc: "\<not> crashed s"
  let ?c = "next_conn s"
  let ?s = "uncaught (on_connection E ?c (accept s))"
  have nl: "\<not> listeners s ?c" using r unfolding reg_ok_def by blast
  have e: "sends_to ?c (trace s) = []" using w nl nc unfolding welcome_ok_def by blast
  have tr: "sends_to x (trace ?s) =
      sends_to x (trace s) @ (if x = ?c then [Welcome ''Connected to WebSocket server''
         (Date_now E (dates s))] else [])" for x
    by (simp add: sends_to_append)
  show "welcome_ok ?s"
    unfolding welcome_ok_def
  proof (intro allI conjI impI)
    fix x
    show "sends_to x (trace ?s) = [] \<or> (\<exists>m t rest. sends_to x (trace ?s) = Welcome m t # rest)"
    proof (cases "x = ?c")
      case True
      then show ?thesis using e unfolding tr by simp
    next
      case False
      then show ?thesis using w unfolding welcome_ok_def tr by simp
    qed
  next
    fix x
    assume l: "listeners ?s x"
    show "sends_to x (trace ?s) \<noteq> []"
    proof (cases "x = ?c")
      case True
      then show ?thesis unfolding tr by simp
    next
      case False
      then have "listeners s x" using l by (simp split: if_splits)
      then show ?thesis using w unfolding welcome_ok_def tr by simp
    qed
  next
    fix x
    assume a: "\<not> listeners ?s x \<and> \<not> crashed ?s"
    then have nr: "\<not> send_raises E ?c" by simp
    then have "x \<noteq> ?c" and "\<not> listeners s x" using a by (auto split: if_splits)
    then show "sends_to x (trace ?s) = []"
      using w nc unfolding welcome_ok_def tr by simp
  qed
next
  fix c d
  assume r: "reg_ok s" and w: "welcome_ok s" and nc: "\<not> crashed s" and l: "listeners s c"
  from on_message_targets [OF reg_ok_not_thrown [OF r], of E c d] obtain xs
    where x: "trace (uncaught (on_message E c d s)) = trace s @ xs"
      and t: "targets xs \<subseteq> insert c (set (recipients c s))"
    by blast
  have "listeners s x" if "x \<in> set (recipients c s)" for x
  proof -
    from that have "socket s x = Some OPEN" by (simp add: recipients_def)
    then show ?thesis using r nc by (rule reg_ok_listeners [rotated 2])
  qed
  then have "\<forall>x \<in> targets xs. listeners s x" using t l by auto
  then show "welcome_ok (uncaught (on_message E c d s))"
    using welcome_ok_extend [OF w nc x] by simp
next
  fix c
  assume w: "welcome_ok s" and nc: "\<not> crashed s"
  show "welcome_ok (s\<lparr>socket := (socket s)(c \<mapsto> CLOSING)\<rparr>)"
    by (rule welcome_ok_extend [OF w nc, where xs = "[]"]) simp_all
next
  fix c
  assume w: "welcome_ok s" and nc: "\<not> crashed s"
  show "welcome_ok (emit_close c s)"
    by (rule welcome_ok_extend [OF w nc,
          where xs = "if listeners s c then [ClearInterval c] else []"]) simp_all
next
  assume w: "welcome_ok s" and nc: "\<not> crashed s"
  show "welcome_ok (tick s)"
    by (rule welcome_ok_extend [OF w nc,
          where xs = "map Ping (filter (\<lambda>c. socket s c = Some OPEN) (due (timers s)))"]) simp_all
next
  assume w: "welcome_ok s" and nc: "\<not> crashed s"
  show "welcome_ok (on_SIGINT s)"
    by (rule welcome_ok_extend [OF w nc, where xs = "map CloseCall (clients s) @ [ServerClose]"])
       simp_all
next
  assume w: "welcome_ok s" and nc: "\<not> crashed s"
  show "welcome_ok (wss_close_callback s)"
    by (rule welcome_ok_extend [OF w nc, where xs = "[Exit]"]) simp_all
next
  assume "welcome_ok s" then show "welcome_ok s" .
qed

lemma welcome_ok_run: "reg_ok s \<Longrightarrow> welcome_ok s \<Longrightarrow> welcome_ok (run E evs s)"
  by (induction evs arbitrary: s) (simp_all add: reg_ok_step welcome_ok_step)

lemma welcome_ok_reachable: "welcome_ok (run E evs init)"
  by (rule welcome_ok_run [OF reg_ok_init welcome_ok_init])

text \<open>
  Claim C10. In every reachable state, whatever has been sent to a connection starts
  with its welcome: a connection whose handlers are attached has the welcome as the
  first notification ever sent to it, and, while the process runs, one without handlers
  has been sent nothing. The connection handler sends the welcome in a state where the
  handlers of the new connection are not attached yet; when that send returns, it
  attaches them next and starts the ping timer last.
\<close>

theorem C10_welcome_first:
  assumes "s = run E evs init"
  shows "(sends_to c (trace s) = [] \<or> (\<exists>m t rest. sends_to c (trace s) = Welcome m t # rest))
         \<and> (listeners s c \<longrightarrow> (\<exists>m t rest. sends_to c (trace s) = Welcome m t # rest))
         \<and> (\<not> listeners s c \<and> \<not> crashed s \<longrightarrow> sends_to c (trace s) = [])
         \<and> \<not> listeners (send_welcome E (next_conn s) (accept s)) (next_conn s)
         \<and> (\<not> exited s \<and> \<not> crashed s \<and> listening s \<and> \<not> send_raises E (next_conn s) \<longrightarrow>
              step E Connection s =
                  setInterval_ping (next_conn s)
                    (attach_handlers (next_conn s) (send_welcome E (next_conn s) (accept s))))"
proof -
  have w: "welcome_ok s" unfolding assms by (rule welcome_ok_reachable)
  have r: "reg_ok s" unfolding assms by (rule reg_ok_reachable)
  have a: "sends_to c (trace s) = [] \<or> (\<exists>m t rest. sends_to c (trace s) = Welcome m t # rest)"
    and b0: "listeners s c \<longrightarrow> sends_to c (trace s) \<noteq> []"
    and c: "\<not> listeners s c \<and> \<not> crashed s \<longrightarrow> sends_to c (trace s) = []"
    using w unfolding welcome_ok_def by blast+
  have b: "listeners s c \<longrightarrow> (\<exists>m t rest. sends_to c (trace s) = Welcome m t # rest)"
    using a b0 by blast
  have "\<not> listeners s (next_conn s)" using r unfolding reg_ok_def by blast
  then have d: "\<not> listeners (send_welcome E (next_conn s) (accept s)) (next_conn s)"
    by (simp add: send_welcome_def accept_def)
  have e: "\<not> exited s \<and> \<not> crashed s \<and> listening s \<and> \<not> send_raises E (next_conn s) \<longrightarrow>
              step E Connection s =
                  setInterval_ping (next_conn s)
                    (attach_handlers (next_conn s) (send_welcome E (next_conn s) (accept s)))"
    by (simp add: step_def on_connection_def Let_def uncaught_def send_welcome_def
          setInterval_ping_def attach_handlers_def)
  show ?thesis
    by (intro conjI) (rule a, rule b, rule c, rule d, rule e)
qed

theorem C10_witness:
  "listeners relayed 1
   \<and> (\<exists>m t rest. sends_to 1 (trace relayed) = Welcome m t # rest)
   \<and> \<not> listeners relayed 5 \<and> \<not> crashed relayed \<and> sends_to 5 (trace relayed) = []
   \<and> \<not> exited relayed \<and> listening relayed \<and> \<not> send_raises demo_env (next_conn relayed)
   \<and> \<not> listeners (send_welcome demo_env (next_conn relayed) (accept relayed)) (next_conn relayed)
   \<and> step demo_env Connection relayed =
        setInterval_ping (next_conn relayed)
          (attach_handlers (next_conn relayed)
             (send_welcome demo_env (next_conn relayed) (accept relayed)))"
proof -
  have h: "relayed = run demo_env [Connection, Connection, Message 0 ''{\"a\":1}''] init"
    by (simp add: relayed_def)
  have l1: "listeners relayed 1" and l5: "\<not> listeners relayed 5"
    and e: "\<not> exited relayed" and cr: "\<not> crashed relayed" and li: "listening relayed"
    by (rule relayed_eval)+
  have nr: "\<not> send_raises demo_env (next_conn relayed)" by (rule demo_env_eval)
  note c1 = C10_welcome_first [OF h, of 1]
  note c5 = C10_welcome_first [OF h, of 5]
  have a: "\<exists>m t rest. sends_to 1 (trace relayed) = Welcome m t # rest"
    using mp [OF conjunct1 [OF conjunct2 [OF c1]] l1] .
  have b: "sends_to 5 (trace relayed) = []"
    using mp [OF conjunct1 [OF conjunct2 [OF conjunct2 [OF c5]]]] l5 cr by blast
  have c: "\<not> listeners (send_welcome demo_env (next_conn relayed) (accept relayed)) (next_conn relayed)"
    using conjunct1 [OF conjunct2 [OF conjunct2 [OF conjunct2 [OF c1]]]] .
  have d: "step demo_env Connection relayed =
        setInterval_ping (next_conn relayed)
          (attach_handlers (next_conn relayed)
             (send_welcome demo_env (next_conn relayed) (accept relayed)))"
    using mp [OF conjunct2 [OF conjunct2 [OF conjunct2 [OF conjunct2 [OF c1]]]]] e cr li nr
    by blast
  show ?thesis using l1 a l5 cr b e li nr c d by (intro conjI)
qed

subsection \<open>What a step adds to the trace\<close>

lemma emitted_simps [simp]:
  "emitted s (uncaught (on_connection E (next_conn s) (accept s))) =
     Send (next_conn s) (Welcome ''Connected to WebSocket server'' (Date_now E (dates s)))
        (open_outcome E (next_conn s))
       # (if send_raises E (next_conn s) then [Uncaught] else [])"
  "emitted s (emit_close c s) = (if listeners s c then [ClearInterval c] else [])"
  "emitted s (tick s) = map Ping (filter (\<lambda>c. socket s c = Some OPEN) (due (timers s)))"
  "emitted s (on_SIGINT s) = map CloseCall (clients s) @ [ServerClose]"
  "emitted s (wss_close_callback s) = [Exit]"
  "emitted s (s\<lparr>socket := x\<rparr>) = []"
  by (simp_all add: emitted_def)

text \<open>The message handler only sends; the one other thing it can do is crash.\<close>

lemma on_message_only_sends:
  assumes "\<not> thrown s" and "a \<in> set (emitted s (uncaught (on_message E c d s)))"
  shows "a = Uncaught \<or> (\<exists>r n ok. a = Send r n ok)"
proof -
  from on_message_targets [OF assms(1), of E c d] obtain xs
    where x: "trace (uncaught (on_message E c d s)) = trace s @ xs"
      and o: "\<forall>a \<in> set xs. a = Uncaught \<or> (\<exists>r n ok. a = Send r n ok)"
    by blast
  have "emitted s (uncaught (on_message E c d s)) = xs"
    using x by (rule emitted_append)
  then show ?thesis using o assms(2) by simp
qed

lemma Ping_notin_on_message:
  "\<not> thrown s \<Longrightarrow> Ping c \<notin> set (emitted s (uncaught (on_message E x d s)))"
  using on_message_only_sends [of s "Ping c" E x d] by auto

lemma ClearInterval_notin_on_message:
  "\<not> thrown s \<Longrightarrow> ClearInterval c \<notin> set (emitted s (uncaught (on_message E x d s)))"
  using on_message_only_sends [of s "ClearInterval c" E x d] by auto

lemma Exit_notin_on_message:
  "\<not> thrown s \<Longrightarrow> Exit \<notin> set (emitted s (uncaught (on_message E x d s)))"
  using on_message_only_sends [of s Exit E x d] by auto

lemma on_message_trace_emitted:
  assumes "\<not> thrown s"
  shows "trace (uncaught (on_message E c d s)) =
           trace s @ emitted s (uncaught (on_message E c d s))"
proof -
  from on_message_targets [OF assms, of E c d] obtain xs
    where x: "trace (uncaught (on_message E c d s)) = trace s @ xs" by blast
  then show ?thesis by (simp add: emitted_def)
qed

text \<open>Only an open connection is pinged.\<close>

lemma ping_only_open:
  assumes "reg_ok s"
  shows "Ping c \<in> set (emitted s (step E ev s)) \<longrightarrow> socket s c = Some OPEN"
  by (rule step_cases [where Q = "\<lambda>x. Ping c \<in> set (emitted s x) \<longrightarrow> socket s c = Some OPEN"])
     (auto simp: Ping_notin_on_message [OF reg_ok_not_thrown [OF assms]])

lemma closed_step:
  "reg_ok s \<Longrightarrow> socket s c = Some CLOSED \<Longrightarrow> socket (step E ev s) c = Some CLOSED"
proof (rule step_cases [where Q = "\<lambda>x. socket x c = Some CLOSED"])
  assume "reg_ok s" "socket s c = Some CLOSED"
  then have "c \<noteq> next_conn s" by (rule reg_ok_fresh)
  then show "socket (uncaught (on_connection E (next_conn s) (accept s))) c = Some CLOSED"
    using \<open>socket s c = Some CLOSED\<close> by simp
qed (auto simp: on_SIGINT_socket)

lemma closed_run:
  "reg_ok s \<Longrightarrow> socket s c = Some CLOSED \<Longrightarrow> socket (run E evs s) c = Some CLOSED"
  by (induction evs arbitrary: s) (simp_all add: reg_ok_step closed_step)

lemma no_ping_after_close:
  "reg_ok s \<Longrightarrow> socket s c = Some CLOSED \<Longrightarrow> Ping c \<notin> set (emitted s (run E evs s))"
proof (induction evs arbitrary: s)
  case Nil
  show ?case by simp
next
  case (Cons ev evs)
  have "Ping c \<notin> set (emitted s (step E ev s))"
    using ping_only_open [OF Cons.prems(1), of c E ev] Cons.prems(2) by auto
  moreover have "Ping c \<notin> set (emitted (step E ev s) (run E evs (step E ev s)))"
    by (rule Cons.IH [OF reg_ok_step [OF Cons.prems(1)] closed_step [OF Cons.prems]])
  ultimately show ?case by (simp add: emitted_run_Cons [OF Cons.prems(1)])
qed

subsection \<open>The timer and cleanup invariants\<close>

lemma timers_ok_init: "timers_ok init"
  by (simp add: timers_ok_def init_def)

lemma countdown_keys [simp]: "map fst (countdown ts) = map fst ts"
  by (simp add: countdown_def)

lemma countdown_bounds:
  "\<forall>t \<in> set ts. 1 \<le> snd t \<and> snd t \<le> PING_INTERVAL_MS \<Longrightarrow>
   \<forall>t \<in> set (countdown ts). 1 \<le> snd t \<and> snd t \<le> PING_INTERVAL_MS"
  by (auto simp: countdown_def PING_INTERVAL_MS_def)

lemma filter_keys: "map fst (filter (\<lambda>t. fst t \<noteq> c) ts) = filter (\<lambda>x. x \<noteq> c) (map fst ts)"
  by (induction ts) simp_all

lemma timers_ok_step: "reg_ok s \<Longrightarrow> timers_ok s \<Longrightarrow> timers_ok (step E ev s)"
proof (rule step_cases [where Q = timers_ok])
  assume r: "reg_ok s" and t: "timers_ok s" and nc: "\<not> crashed s"
  have "next_conn s \<notin> set (clients s)"
    using r unfolding reg_ok_def by (metis less_irrefl option.distinct(1))
  then show "timers_ok (uncaught (on_connection E (next_conn s) (accept s)))"
    using t nc unfolding timers_ok_def by (auto simp: clients_add_def PING_INTERVAL_MS_def)
next
  fix c d
  assume "timers_ok s"
  then show "timers_ok (uncaught (on_message E c d s))" by (simp add: timers_ok_def)
next
  fix c
  assume "timers_ok s"
  then show "timers_ok (s\<lparr>socket := (socket s)(c \<mapsto> CLOSING)\<rparr>)" by (simp add: timers_ok_def)
next
  fix c
  assume r: "reg_ok s" and t: "timers_ok s" and nc: "\<not> crashed s"
    and o: "socket s c = Some OPEN \<or> socket s c = Some CLOSING"
  from o obtain st where "socket s c = Some st" by blast
  then have l: "listeners s c" using r nc by (rule reg_ok_listeners [rotated 2])
  have d: "distinct (map fst (filter (\<lambda>t. fst t \<noteq> c) (timers s)))"
    using t unfolding timers_ok_def filter_keys by simp
  have k: "set (map fst (filter (\<lambda>t. fst t \<noteq> c) (timers s))) \<subseteq> set (clients_delete c (clients s))"
    using t unfolding timers_ok_def filter_keys clients_delete_def by auto
  have k': "set (clients_delete c (clients s)) \<subseteq> set (map fst (filter (\<lambda>t. fst t \<noteq> c) (timers s)))"
    using t nc unfolding timers_ok_def filter_keys clients_delete_def by auto
  have b: "\<forall>t \<in> set (filter (\<lambda>t. fst t \<noteq> c) (timers s)). 1 \<le> snd t \<and> snd t \<le> PING_INTERVAL_MS"
    using t unfolding timers_ok_def by simp
  show "timers_ok (emit_close c s)"
    unfolding timers_ok_def using l d k k' b by simp
next
  assume t: "timers_ok s"
  then show "timers_ok (tick s)"
    unfolding timers_ok_def using countdown_bounds [of "timers s"] by simp
next
  assume "timers_ok s"
  then show "timers_ok (on_SIGINT s)" by (simp add: timers_ok_def)
next
  assume "timers_ok s"
  then show "timers_ok (wss_close_callback s)" by (simp add: timers_ok_def)
next
  assume "timers_ok s" then show "timers_ok s" .
qed

lemma timers_ok_run: "reg_ok s \<Longrightarrow> timers_ok s \<Longrightarrow> timers_ok (run E evs s)"
  by (induction evs arbitrary: s) (simp_all add: reg_ok_step timers_ok_step)

lemma timers_ok_reachable: "timers_ok (run E evs init)"
  by (rule timers_ok_run [OF reg_ok_init timers_ok_init])

lemma cleanup_ok_init: "cleanup_ok init"
  by (simp add: cleanup_ok_def init_def)

lemma count_notin: "x \<notin> set xs \<Longrightarrow> count_list xs x = 0"
  by (induction xs) auto

lemma count_map_CloseCall [simp]: "count_list (map CloseCall cs) (ClearInterval r) = 0"
  by (rule count_notin) auto

lemma count_map_Ping_Clear [simp]: "count_list (map Ping cs) (ClearInterval r) = 0"
  by (rule count_notin) auto

lemma count_on_message_Clear:
  assumes "\<not> thrown s"
  shows "count_list (trace (uncaught (on_message E c d s))) (ClearInterval r)
           = count_list (trace s) (ClearInterval r)"
  unfolding on_message_trace_emitted [OF assms]
  by (simp add: count_notin [OF ClearInterval_notin_on_message [OF assms]])

lemma cleanup_ok_step: "reg_ok s \<Longrightarrow> cleanup_ok s \<Longrightarrow> cleanup_ok (step E ev s)"
proof (rule step_cases [where Q = cleanup_ok])
  assume r: "reg_ok s" and c: "cleanup_ok s"
  have "socket s (next_conn s) = None" using r unfolding reg_ok_def by (metis less_irrefl)
  then show "cleanup_ok (uncaught (on_connection E (next_conn s) (accept s)))"
    using c unfolding cleanup_ok_def by auto
next
  fix c d
  assume r: "reg_ok s" and cl: "cleanup_ok s"
  have nt: "\<not> thrown s" using r by (rule reg_ok_not_thrown)
  show "cleanup_ok (uncaught (on_message E c d s))"
    unfolding cleanup_ok_def count_on_message_Clear [OF nt]
    using cl unfolding cleanup_ok_def by simp
next
  fix c
  assume "cleanup_ok s" "socket s c = Some OPEN"
  then show "cleanup_ok (s\<lparr>socket := (socket s)(c \<mapsto> CLOSING)\<rparr>)"
    unfolding cleanup_ok_def by auto
next
  fix c
  assume r: "reg_ok s" and cl: "cleanup_ok s" and nc: "\<not> crashed s"
    and o: "socket s c = Some OPEN \<or> socket s c = Some CLOSING"
  from o obtain st where "socket s c = Some st" by blast
  then have l: "listeners s c" using r nc by (rule reg_ok_listeners [rotated 2])
  have "count_list (trace s) (ClearInterval c) = 0"
    using cl o unfolding cleanup_ok_def by auto
  then show "cleanup_ok (emit_close c s)"
    using cl l unfolding cleanup_ok_def by auto
next
  assume "cleanup_ok s"
  then show "cleanup_ok (tick s)" by (simp add: cleanup_ok_def)
next
  assume "cleanup_ok s"
  then show "cleanup_ok (on_SIGINT s)"
    unfolding cleanup_ok_def by (auto simp: on_SIGINT_socket)
next
  assume "cleanup_ok s"
  then show "cleanup_ok (wss_close_callback s)" by (simp add: cleanup_ok_def)
next
  assume "cleanup_ok s" then show "cleanup_ok s" .
qed

lemma cleanup_ok_run: "reg_ok s \<Longrightarrow> cleanup_ok s \<Longrightarrow> cleanup_ok (run E evs s)"
  by (induction evs arbitrary: s) (simp_all add: reg_ok_step cleanup_ok_step)

lemma cleanup_ok_reachable: "cleanup_ok (run E evs init)"
  by (rule cleanup_ok_run [OF reg_ok_init cleanup_ok_init])

subsection \<open>Counting pings\<close>

lemma count_map_Ping: "count_list (map Ping cs) (Ping c) = count_list cs c"
  by (induction cs) simp_all

lemma count_filter: "count_list (filter Q cs) c = (if Q c then count_list cs c else 0)"
  by (induction cs) simp_all

lemma count_due:
  "distinct (map fst ts) \<Longrightarrow> (c, r) \<in> set ts \<Longrightarrow> count_list (due ts) c = (if r \<le> 1 then 1 else 0)"
proof (induction ts)
  case Nil
  then show ?case by simp
next
  case (Cons t ts)
  show ?case
  proof (cases "t = (c, r)")
    case True
    then have "c \<notin> fst ` set ts" using Cons.prems(1) by simp
    then have "c \<notin> set (due ts)" by (auto simp: due_def)
    then show ?thesis using True by (simp add: due_def count_notin)
  next
    case False
    then have m: "(c, r) \<in> set ts" using Cons.prems(2) by simp
    then have "fst t \<noteq> c" using Cons.prems(1) by (auto simp: image_iff)
    moreover have "count_list (due ts) c = (if r \<le> 1 then 1 else 0)"
      using Cons.IH m Cons.prems(1) by simp
    ultimately show ?thesis by (simp add: due_def)
  qed
qed

lemma countdown_member:
  "(c, r) \<in> set ts \<Longrightarrow> (c, if r \<le> 1 then PING_INTERVAL_MS else r - 1) \<in> set (countdown ts)"
  by (force simp: countdown_def)

text \<open>When no send throws, no handler ends the process.\<close>

lemma uncaught_on_connection:
  "\<not> send_raises E (next_conn s) \<Longrightarrow>
   uncaught (on_connection E (next_conn s) (accept s)) = on_connection E (next_conn s) (accept s)"
  by (simp add: uncaught_def)

lemma quiet_step:
  assumes r: "reg_ok s" and t: "timers_ok s" and m: "(c, r) \<in> set (timers s)"
    and o: "socket s c = Some OPEN" and e: "\<not> exited s" and cr: "\<not> crashed s"
    and nr: "\<forall>x. \<not> send_raises E x" and q: "\<not> affects c ev" and ncl: "\<not> closing s"
  shows "\<not> exited (step E ev s)" and "\<not> crashed (step E ev s)"
    and "\<not> closing (step E ev s)"
    and "socket (step E ev s) c = Some OPEN"
    and "(c, if ev = Tick then (if r \<le> 1 then PING_INTERVAL_MS else r - 1) else r)
           \<in> set (timers (step E ev s))"
    and "count_list (emitted s (step E ev s)) (Ping c) = (if ev = Tick \<and> r \<le> 1 then 1 else 0)"
proof -
  have nt: "\<not> thrown s" using r by (rule reg_ok_not_thrown)
  have fresh: "c \<noteq> next_conn s" using r o by (rule reg_ok_fresh)
  have reg: "c \<in> set (clients s)" using r o unfolding reg_ok_def by blast
  have dis: "distinct (map fst (timers s))" using t by (simp add: timers_ok_def)
  have um: "uncaught (on_message E x d s) = on_message E x d s" for x d
    using nt nr by (simp add: uncaught_on_message)
  have uc: "uncaught (on_connection E (next_conn s) (accept s))
      = on_connection E (next_conn s) (accept s)"
    using nr by (simp add: uncaught_on_connection)
  have tick_count: "count_list (emitted s (tick s)) (Ping c) = (if r \<le> 1 then 1 else 0)"
    using o by (simp add: count_map_Ping count_filter count_due [OF dis m])
  have msg: "count_list (emitted s (on_message E x d s)) (Ping c) = 0" for x d
    using count_notin [OF Ping_notin_on_message [OF nt, of c E x d]] by (simp add: um)
  have con: "count_list (emitted s (on_connection E (next_conn s) (accept s))) (Ping c) = 0"
    using emitted_simps(1) [of s E] nr by (simp add: uc)
  show "\<not> exited (step E ev s)"
    using e cr ncl by (cases ev) (auto simp: step_def um uc)
  show "\<not> crashed (step E ev s)"
    using e cr ncl by (cases ev) (auto simp: step_def um uc)
  show "\<not> closing (step E ev s)"
    using e cr ncl q by (cases ev) (auto simp: step_def um uc)
  show "socket (step E ev s) c = Some OPEN"
    using e cr o fresh q by (cases ev) (auto simp: step_def um uc)
  show "(c, if ev = Tick then (if r \<le> 1 then PING_INTERVAL_MS else r - 1) else r)
           \<in> set (timers (step E ev s))"
    using e cr m q nr countdown_member [OF m] by (cases ev) (auto simp: step_def um uc)
  show "count_list (emitted s (step E ev s)) (Ping c) = (if ev = Tick \<and> r \<le> 1 then 1 else 0)"
    using e cr q tick_count msg con ncl by (cases ev) (auto simp: step_def um uc)
qed

lemma interval_arith:
  assumes "1 \<le> r" and "r \<le> p"
  shows "(if r \<le> 1 then 1 else 0) + (n + p - (if r \<le> 1 then p else r - 1)) div p
           = (Suc n + p - r) div (p::nat)"
proof (cases "r \<le> 1")
  case True
  then have "r = 1" using assms(1) by simp
  moreover have "0 < p" using assms by simp
  then have "(n + p) div p = Suc (n div p)" using div_add_self2 [of p n] by simp
  ultimately show ?thesis using assms(2) by simp
next
  case False
  then have "n + p - (r - 1) = Suc n + p - r" using assms(2) by simp
  then show ?thesis using False by simp
qed

lemma pings_count:
  assumes "reg_ok s" and "timers_ok s" and "(c, r) \<in> set (timers s)"
    and "socket s c = Some OPEN" and "\<not> exited s" and "\<not> crashed s"
    and "\<forall>x. \<not> send_raises E x" and "\<forall>ev \<in> set evs. \<not> affects c ev"
    and "\<not> closing s"
  shows "count_list (emitted s (run E evs s)) (Ping c)
           = (count_list evs Tick + PING_INTERVAL_MS - r) div PING_INTERVAL_MS"
  using assms
proof (induction evs arbitrary: s r)
  case Nil
  then have "r \<le> PING_INTERVAL_MS" and "1 \<le> r" unfolding timers_ok_def by force+
  then show ?case by simp
next
  case (Cons ev evs)
  let ?s = "step E ev s"
  let ?r = "if ev = Tick then (if r \<le> 1 then PING_INTERVAL_MS else r - 1) else r"
  have q: "\<not> affects c ev" using Cons.prems(8) by simp
  note st = quiet_step [OF Cons.prems(1-7) q Cons.prems(9)]
  have bounds: "1 \<le> r" "r \<le> PING_INTERVAL_MS"
    using Cons.prems(2,3) unfolding timers_ok_def by force+
  have ih: "count_list (emitted ?s (run E evs ?s)) (Ping c)
           = (count_list evs Tick + PING_INTERVAL_MS - ?r) div PING_INTERVAL_MS"
    using Cons.IH [OF reg_ok_step [OF Cons.prems(1)] timers_ok_step [OF Cons.prems(1,2)]
        st(5) st(4) st(1) st(2) Cons.prems(7) _ st(3)] Cons.prems(8) by simp
  have "count_list (emitted s (run E (ev # evs) s)) (Ping c)
      = (if ev = Tick \<and> r \<le> 1 then 1 else 0)
        + (count_list evs Tick + PING_INTERVAL_MS - ?r) div PING_INTERVAL_MS"
    using st(6) ih by (simp add: emitted_run_Cons [OF Cons.prems(1)])
  also have "\<dots> = (count_list (ev # evs) Tick + PING_INTERVAL_MS - r) div PING_INTERVAL_MS"
  proof (cases "ev = Tick")
    case True
    then show ?thesis
      using interval_arith [OF bounds, of "count_list evs Tick"] by simp
  next
    case False
    then show ?thesis by simp
  qed
  finally show ?case .
qed

text \<open>Once \<open>wss.close\<close> has been called the port stays released.\<close>

lemma closing_released_step:
  "closing s \<longrightarrow> \<not> listening s \<Longrightarrow> closing (step E ev s) \<longrightarrow> \<not> listening (step E ev s)"
  by (rule step_cases [where Q = "\<lambda>x. closing x \<longrightarrow> \<not> listening x"]) simp_all

lemma closing_released_run:
  "closing s \<longrightarrow> \<not> listening s \<Longrightarrow> closing (run E evs s) \<longrightarrow> \<not> listening (run E evs s)"
proof (induction evs arbitrary: s)
  case Nil
  then show ?case by simp
next
  case (Cons ev evs)
  from Cons.IH [OF closing_released_step [OF Cons.prems, of E ev]] show ?case by simp
qed

lemma closing_released: "listening (run E evs init) \<Longrightarrow> \<not> closing (run E evs init)"
  using closing_released_run [of init E evs] by (auto simp: init_def)

lemma count_list_replicate: "count_list (replicate n x) x = n"
  by (induction n) simp_all

lemma tick_idle:
  assumes "\<forall>t \<in> set (timers s). 1 < snd t"
  shows "tick s = s\<lparr>timers := map (\<lambda>t. (fst t, snd t - 1)) (timers s)\<rparr>"
proof -
  have "due (timers s) = []" using assms by (auto simp: due_def filter_empty_conv)
  moreover have "countdown (timers s) = map (\<lambda>t. (fst t, snd t - 1)) (timers s)"
    using assms by (auto simp: countdown_def)
  ultimately show ?thesis by (simp add: tick_def)
qed

lemma idle_ticks:
  "\<not> exited s \<Longrightarrow> \<not> crashed s \<Longrightarrow> \<forall>t \<in> set (timers s). n < snd t \<Longrightarrow>
   run E (replicate n Tick) s = s\<lparr>timers := map (\<lambda>t. (fst t, snd t - n)) (timers s)\<rparr>"
proof (induction n arbitrary: s)
  case 0
  show ?case by simp
next
  case (Suc n)
  have idle: "\<forall>t \<in> set (timers s). 1 < snd t" using Suc.prems(3) by auto
  have st: "step E Tick s = s\<lparr>timers := map (\<lambda>t. (fst t, snd t - 1)) (timers s)\<rparr>"
    using Suc.prems(1,2) by (simp add: step_def tick_idle [OF idle])
  let ?s = "s\<lparr>timers := map (\<lambda>t. (fst t, snd t - 1)) (timers s)\<rparr>"
  have e: "\<not> exited ?s" "\<not> crashed ?s" using Suc.prems(1,2) by simp_all
  have b: "\<forall>t \<in> set (timers ?s). n < snd t" using Suc.prems(3) by auto
  show ?case
    using Suc.IH [OF e b] by (simp add: st comp_def)
qed

lemma about_to_ping_eq: "about_to_ping = one_client\<lparr>timers := [(0, 1)]\<rparr>"
proof -
  have "about_to_ping = run demo_env (replicate 29999 Tick) one_client"
    unfolding about_to_ping_def one_client_def by (simp only: run_Cons run_Nil)
  also have "\<dots> = one_client\<lparr>timers := map (\<lambda>t. (fst t, snd t - 29999)) (timers one_client)\<rparr>"
    by (rule idle_ticks) (simp_all add: one_client_eval)
  finally show ?thesis by (simp add: one_client_eval)
qed

lemma about_to_ping_fires:
  "emitted about_to_ping (step demo_env Tick about_to_ping) = [Ping 0]"
  by (simp add: about_to_ping_eq step_def one_client_eval due_def del: One_nat_def)

subsection \<open>The liveness timer and the close path\<close>



subsection \<open>Shutdown\<close>

lemma shutdown_ok_init: "shutdown_ok init"
  by (simp add: shutdown_ok_def init_def)

lemma shutdown_ok_step: "reg_ok s \<Longrightarrow> shutdown_ok s \<Longrightarrow> shutdown_ok (step E ev s)"
proof (rule step_cases [where Q = shutdown_ok])
  assume "shutdown_ok s" "\<not> exited s"
  then show "shutdown_ok (uncaught (on_connection E (next_conn s) (accept s)))"
    unfolding shutdown_ok_def by auto
next
  fix c d
  assume r: "reg_ok s" and sd: "shutdown_ok s" and e: "\<not> exited s"
  have nt: "\<not> thrown s" using r by (rule reg_ok_not_thrown)
  show "shutdown_ok (uncaught (on_message E c d s))"
    unfolding shutdown_ok_def on_message_trace_emitted [OF nt]
    using sd e Exit_notin_on_message [OF nt, of E c d] unfolding shutdown_ok_def by simp
next
  fix c
  assume "shutdown_ok s"
  then show "shutdown_ok (s\<lparr>socket := (socket s)(c \<mapsto> CLOSING)\<rparr>)"
    by (simp add: shutdown_ok_def)
next
  fix c
  assume "shutdown_ok s" "\<not> exited s"
  then show "shutdown_ok (emit_close c s)"
    unfolding shutdown_ok_def by auto
next
  assume "shutdown_ok s" "\<not> exited s"
  then show "shutdown_ok (tick s)"
    unfolding shutdown_ok_def by auto
next
  assume "shutdown_ok s" "\<not> exited s"
  then show "shutdown_ok (on_SIGINT s)"
    unfolding shutdown_ok_def by auto
next
  assume "shutdown_ok s" "\<not> exited s" "closing s"
  then show "shutdown_ok (wss_close_callback s)"
    unfolding shutdown_ok_def by auto
next
  assume "shutdown_ok s" then show "shutdown_ok s" .
qed

lemma shutdown_ok_run: "reg_ok s \<Longrightarrow> shutdown_ok s \<Longrightarrow> shutdown_ok (run E evs s)"
  by (induction evs arbitrary: s) (simp_all add: reg_ok_step shutdown_ok_step)

lemma shutdown_ok_reachable: "shutdown_ok (run E evs init)"
  by (rule shutdown_ok_run [OF reg_ok_init shutdown_ok_init])

lemma not_listening_step:
  "\<not> listening s \<Longrightarrow> \<not> listening (step E ev s) \<and> next_conn (step E ev s) = next_conn s"
  by (rule step_cases [where Q = "\<lambda>x. \<not> listening x \<and> next_conn x = next_conn s"]) simp_all

lemma not_listening_run:
  "\<not> listening s \<Longrightarrow> \<not> listening (run E evs s) \<and> next_conn (run E evs s) = next_conn s"
proof (induction evs arbitrary: s)
  case Nil
  then show ?case by simp
next
  case (Cons ev evs)
  from not_listening_step [OF Cons.prems, of E ev]
  have a: "\<not> listening (step E ev s)" and b: "next_conn (step E ev s) = next_conn s" by simp_all
  from Cons.IH [OF a] show ?case by (simp add: b)
qed

lemma closed_first_init: "closed_first init"
  by (simp add: closed_first_def init_def)

lemma closed_first_extend:
  assumes "closed_first s" and "closing s' = closing s"
    and "set (clients s') \<subseteq> set (clients s)"
    and "\<forall>r \<in> set (clients s'). socket s' r = socket s r"
    and "\<exists>xs. trace s' = trace s @ xs"
  shows "closed_first s'"
proof (cases "closing s")
  case False
  then show ?thesis using assms(2) by (simp add: closed_first_def)
next
  case True
  from assms(1) True obtain pre post where
    cl: "\<forall>r \<in> set (clients s). socket s r = Some CLOSING"
    and tr: "trace s = pre @ ServerClose # post"
    and cc: "\<forall>r \<in> set (clients s). CloseCall r \<in> set pre"
    unfolding closed_first_def by blast
  from assms(5) obtain xs where xs: "trace s' = trace s @ xs" ..
  have 1: "\<forall>r \<in> set (clients s'). socket s' r = Some CLOSING"
    using cl assms(3,4) by auto
  have 2: "trace s' = pre @ ServerClose # (post @ xs)" by (simp add: xs tr)
  have 3: "\<forall>r \<in> set (clients s'). CloseCall r \<in> set pre" using cc assms(3) by auto
  show ?thesis unfolding closed_first_def using 1 2 3 by blast
qed

lemma closed_first_step:
  assumes r: "reg_ok s" and sd: "shutdown_ok s" and cf: "closed_first s"
  shows "closed_first (step E ev s)"
proof (rule step_cases [where Q = closed_first])
  assume "listening s"
  then have "\<not> closing s" using sd unfolding shutdown_ok_def by blast
  then show "closed_first (uncaught (on_connection E (next_conn s) (accept s)))"
    by (simp add: closed_first_def)
next
  fix c d
  have nt: "\<not> thrown s" using r by (rule reg_ok_not_thrown)
  show "closed_first (uncaught (on_message E c d s))"
  proof (rule closed_first_extend [OF cf])
    show "\<exists>xs. trace (uncaught (on_message E c d s)) = trace s @ xs"
      using on_message_trace_emitted [OF nt, of E c d] by blast
  qed simp_all
next
  fix c
  assume "socket s c = Some OPEN"
  then have "c \<in> set (clients s)" using r unfolding reg_ok_def by blast
  then have "\<not> closing s" using cf \<open>socket s c = Some OPEN\<close> unfolding closed_first_def by auto
  then show "closed_first (s\<lparr>socket := (socket s)(c \<mapsto> CLOSING)\<rparr>)"
    by (simp add: closed_first_def)
next
  fix c
  show "closed_first (emit_close c s)"
    by (rule closed_first_extend [OF cf]) (auto simp: clients_delete_def)
next
  show "closed_first (tick s)"
    by (rule closed_first_extend [OF cf]) simp_all
next
  have 1: "\<forall>x \<in> set (clients s). socket (on_SIGINT s) x = Some CLOSING"
    using r unfolding reg_ok_def by (auto simp: on_SIGINT_socket)
  have 2: "trace (on_SIGINT s) = (trace s @ map CloseCall (clients s)) @ ServerClose # []"
    by simp
  have 3: "\<forall>x \<in> set (clients s). CloseCall x \<in> set (trace s @ map CloseCall (clients s))"
    by simp
  show "closed_first (on_SIGINT s)"
    unfolding closed_first_def using 1 2 3 by (metis on_SIGINT_fields(1))
next
  show "closed_first (wss_close_callback s)"
    by (rule closed_first_extend [OF cf]) simp_all
next
  show "closed_first s" by (rule cf)
qed

lemma closed_first_run:
  "reg_ok s \<Longrightarrow> shutdown_ok s \<Longrightarrow> closed_first s \<Longrightarrow> closed_first (run E evs s)"
proof (induction evs arbitrary: s)
  case Nil
  then show ?case by simp
next
  case (Cons ev evs)
  from Cons.IH [OF reg_ok_step [OF Cons.prems(1)] shutdown_ok_step [OF Cons.prems(1,2)]
      closed_first_step [OF Cons.prems]]
  show ?case by simp
qed

lemma closed_first_reachable: "closed_first (run E evs init)"
  by (rule closed_first_run [OF reg_ok_init shutdown_ok_init closed_first_init])

lemma exit_last:
  assumes "tr = p1 @ [Exit]" and "Exit \<notin> set p1" and "tr = pre @ ServerClose # post"
  shows "\<exists>post'. tr = pre @ ServerClose # post' @ [Exit] \<and> Exit \<notin> set pre \<and> Exit \<notin> set post'"
proof -
  have "post \<noteq> []"
  proof
    assume "post = []"
    then have "last tr = ServerClose" using assms(3) by simp
    moreover have "last tr = Exit" using assms(1) by simp
    ultimately show False by simp
  qed
  then have p: "post = butlast post @ [last post]" by simp
  then have "tr = (pre @ ServerClose # butlast post) @ [last post]"
    using assms(3) by (metis append.assoc append_Cons)
  then have "p1 = pre @ ServerClose # butlast post" and l: "last post = Exit"
    using assms(1) by simp_all
  then have "Exit \<notin> set pre" and "Exit \<notin> set (butlast post)"
    using assms(2) by simp_all
  moreover have "tr = pre @ ServerClose # butlast post @ [Exit]"
    using assms(3) p l by (metis)
  ultimately show ?thesis by blast
qed

lemma exit_early_eval:
  "exited exit_early" "\<not> listening exit_early" "clients exit_early = [0, 1]"
  "socket exit_early 0 = Some CLOSING" "socket exit_early 1 = Some CLOSING"
  "timers exit_early = [(0, 30000), (1, 30000)]"
  "trace exit_early =
     [Send 0 (Welcome ''Connected to WebSocket server'' 1000) Delivered,
      Send 1 (Welcome ''Connected to WebSocket server'' 1007) Failed,
      CloseCall 0, CloseCall 1, ServerClose, Exit]"
  by (simp_all add: exit_early_def demo_defs on_SIGINT_def wss_close_def ws_close_def
        wss_close_callback_def)

text \<open>
  The process exits without waiting for the connections. Two connections are open when
  \<open>SIGINT\<close> arrives and the callback of \<open>wss.close\<close> runs before either has finished
  closing: the process has exited with both connections in the registry, both still
  \<open>CLOSING\<close>, both timers running, and \<open>clearInterval\<close> never called.
\<close>

theorem C7_counterexample:
  "exited exit_early \<and> clients exit_early = [0, 1]
   \<and> socket exit_early 0 = Some CLOSING \<and> socket exit_early 1 = Some CLOSING
   \<and> timers exit_early = [(0, 30000), (1, 30000)]
   \<and> ClearInterval 0 \<notin> set (trace exit_early) \<and> ClearInterval 1 \<notin> set (trace exit_early)"
proof -
  have n: "ClearInterval 0 \<notin> set (trace exit_early)" "ClearInterval 1 \<notin> set (trace exit_early)"
    by (simp_all add: exit_early_eval(7))
  show ?thesis
    using exit_early_eval(1,3,4,5,6) n by (intro conjI)
qed

text \<open>
  Claim C7, amended. On \<open>SIGINT\<close> the handler calls \<open>close\<close> on every connection of the
  registry, in registry order, and then \<open>wss.close\<close>; afterwards every connection of
  the registry is closing, the port is released and the process has not exited. Once the
  port is released no connection is accepted any more. When the process has exited, the
  port was released, \<open>close\<close> was called on every connection still in the registry before
  \<open>wss.close\<close> was, each of them is closing, and \<open>process.exit\<close> is the last call of the
  trace, after \<open>wss.close\<close>.
\<close>

theorem C7_shutdown_order:
  assumes "s = run E evs init"
  shows "(\<not> exited s \<and> \<not> crashed s \<longrightarrow>
            emitted s (step E SIGINT s) = map CloseCall (clients s) @ [ServerClose]
            \<and> (\<forall>r \<in> set (clients s). socket (step E SIGINT s) r = Some CLOSING)
            \<and> \<not> listening (step E SIGINT s) \<and> \<not> exited (step E SIGINT s))
    \<and> (\<not> listening s \<longrightarrow> \<not> listening (run E evs' s) \<and> next_conn (run E evs' s) = next_conn s)
    \<and> (exited s \<longrightarrow>
          \<not> listening s
          \<and> (\<forall>r \<in> set (clients s). socket s r = Some CLOSING)
          \<and> (\<exists>pre post. trace s = pre @ ServerClose # post @ [Exit]
                \<and> (\<forall>r \<in> set (clients s). CloseCall r \<in> set pre)
                \<and> Exit \<notin> set pre \<and> Exit \<notin> set post))"
proof -
  have reg: "reg_ok s" unfolding assms by (rule reg_ok_reachable)
  have shd: "shutdown_ok s" unfolding assms by (rule shutdown_ok_reachable)
  have cf: "closed_first s" unfolding assms by (rule closed_first_reachable)
  have p1: "emitted s (step E SIGINT s) = map CloseCall (clients s) @ [ServerClose]
            \<and> (\<forall>r \<in> set (clients s). socket (step E SIGINT s) r = Some CLOSING)
            \<and> \<not> listening (step E SIGINT s) \<and> \<not> exited (step E SIGINT s)"
    if e: "\<not> exited s" "\<not> crashed s"
  proof -
    have st: "step E SIGINT s = on_SIGINT s" using e by (simp add: step_def)
    have "socket (on_SIGINT s) r = Some CLOSING" if "r \<in> set (clients s)" for r
    proof -
      from that have "socket s r = Some OPEN \<or> socket s r = Some CLOSING"
        using reg unfolding reg_ok_def by blast
      then show ?thesis using that by (auto simp: on_SIGINT_socket)
    qed
    then show ?thesis using e by (simp add: st)
  qed
  have p2: "\<not> listening (run E evs' s) \<and> next_conn (run E evs' s) = next_conn s"
    if "\<not> listening s"
    using that by (rule not_listening_run)
  have p3: "\<not> listening s
          \<and> (\<forall>r \<in> set (clients s). socket s r = Some CLOSING)
          \<and> (\<exists>pre post. trace s = pre @ ServerClose # post @ [Exit]
                \<and> (\<forall>r \<in> set (clients s). CloseCall r \<in> set pre)
                \<and> Exit \<notin> set pre \<and> Exit \<notin> set post)"
    if e: "exited s"
  proof -
    have c: "closing s" using shd e unfolding shutdown_ok_def by blast
    from shd e obtain p1 where t1: "trace s = p1 @ [Exit]" and n1: "Exit \<notin> set p1"
      unfolding shutdown_ok_def by blast
    have nl: "\<not> listening s" using shd c unfolding shutdown_ok_def by blast
    from cf c obtain pre post where
      cl: "\<forall>r \<in> set (clients s). socket s r = Some CLOSING"
      and t2: "trace s = pre @ ServerClose # post"
      and cc: "\<forall>r \<in> set (clients s). CloseCall r \<in> set pre"
      unfolding closed_first_def by blast
    from exit_last [OF t1 n1 t2] obtain post' where
      "trace s = pre @ ServerClose # post' @ [Exit]" "Exit \<notin> set pre" "Exit \<notin> set post'"
      by blast
    then show ?thesis using nl cl cc by blast
  qed
  have q1: "\<not> exited s \<and> \<not> crashed s \<longrightarrow>
            emitted s (step E SIGINT s) = map CloseCall (clients s) @ [ServerClose]
            \<and> (\<forall>r \<in> set (clients s). socket (step E SIGINT s) r = Some CLOSING)
            \<and> \<not> listening (step E SIGINT s) \<and> \<not> exited (step E SIGINT s)"
    using p1 by blast
  have q2: "\<not> listening s \<longrightarrow> \<not> listening (run E evs' s) \<and> next_conn (run E evs' s) = next_conn s"
    using p2 by blast
  have q3: "exited s \<longrightarrow>
          \<not> listening s
          \<and> (\<forall>r \<in> set (clients s). socket s r = Some CLOSING)
          \<and> (\<exists>pre post. trace s = pre @ ServerClose # post @ [Exit]
                \<and> (\<forall>r \<in> set (clients s). CloseCall r \<in> set pre)
                \<and> Exit \<notin> set pre \<and> Exit \<notin> set post)"
    using p3 by blast
  show ?thesis
    by (intro conjI) (rule q1, rule q2, rule q3)
qed

theorem C7_witness:
  "\<not> exited two_clients \<and> \<not> crashed two_clients
   \<and> emitted two_clients (step demo_env SIGINT two_clients) = [CloseCall 0, CloseCall 1, ServerClose]
   \<and> socket (step demo_env SIGINT two_clients) 0 = Some CLOSING
   \<and> socket (step demo_env SIGINT two_clients) 1 = Some CLOSING
   \<and> \<not> listening (step demo_env SIGINT two_clients) \<and> \<not> exited (step demo_env SIGINT two_clients)
   \<and> \<not> listening closing_down
   \<and> next_conn (run demo_env [Connection, Connection] closing_down) = next_conn closing_down
   \<and> exited late_exit \<and> \<not> listening late_exit \<and> clients late_exit = [0]
   \<and> socket late_exit 0 = Some CLOSING
   \<and> (\<exists>pre post. trace late_exit = pre @ ServerClose # post @ [Exit]
         \<and> CloseCall 0 \<in> set pre \<and> Exit \<notin> set pre \<and> Exit \<notin> set post)"
proof -
  have r1: "two_clients = run demo_env [Connection, Connection] init"
    by (simp add: two_clients_def)
  have r2: "closing_down = run demo_env [Connection, Connection, SIGINT] init"
    by (simp add: closing_down_def)
  have r3: "late_exit = run demo_env [Connection, Connection, SIGINT, Close 1, ServerClosed] init"
    by (simp add: late_exit_def)
  have a: "\<not> exited two_clients" and a': "\<not> crashed two_clients" by (rule two_clients_eval)+
  have m: "0 \<in> set (clients two_clients)" "1 \<in> set (clients two_clients)"
    by (simp_all add: two_clients_eval(1))
  note t1 = C7_shutdown_order [OF r1, of "[]"]
  from mp [OF conjunct1 [OF t1] conjI [OF a a']]
  have a1: "emitted two_clients (step demo_env SIGINT two_clients)
              = map CloseCall (clients two_clients) @ [ServerClose]"
    and a4: "\<forall>r \<in> set (clients two_clients). socket (step demo_env SIGINT two_clients) r = Some CLOSING"
    and a2: "\<not> listening (step demo_env SIGINT two_clients)"
    and a3: "\<not> exited (step demo_env SIGINT two_clients)"
    by blast+
  have a1': "emitted two_clients (step demo_env SIGINT two_clients) = [CloseCall 0, CloseCall 1, ServerClose]"
    using a1 by (simp add: two_clients_eval)
  have a5: "socket (step demo_env SIGINT two_clients) 0 = Some CLOSING"
    and a6: "socket (step demo_env SIGINT two_clients) 1 = Some CLOSING"
    using a4 m by blast+
  have b: "\<not> listening closing_down" by (rule closing_down_eval)
  note t2 = C7_shutdown_order [OF r2, of "[Connection, Connection]"]
  have b1: "next_conn (run demo_env [Connection, Connection] closing_down) = next_conn closing_down"
    using mp [OF conjunct1 [OF conjunct2 [OF t2]] b] by blast
  have c: "exited late_exit" and c0: "clients late_exit = [0]" by (rule late_exit_eval)+
  note t3 = C7_shutdown_order [OF r3, of "[]"]
  from mp [OF conjunct2 [OF conjunct2 [OF t3]] c]
  have c1: "\<not> listening late_exit"
    and c2: "\<forall>r \<in> set (clients late_exit). socket late_exit r = Some CLOSING"
    and c3: "\<exists>pre post. trace late_exit = pre @ ServerClose # post @ [Exit]
                \<and> (\<forall>r \<in> set (clients late_exit). CloseCall r \<in> set pre)
                \<and> Exit \<notin> set pre \<and> Exit \<notin> set post"
    by blast+
  have c4: "socket late_exit 0 = Some CLOSING" using c2 by (simp add: c0)
  have c5: "\<exists>pre post. trace late_exit = pre @ ServerClose # post @ [Exit]
         \<and> CloseCall 0 \<in> set pre \<and> Exit \<notin> set pre \<and> Exit \<notin> set post"
    using c3 by (simp add: c0)
  show ?thesis
    using a a' a1' a5 a6 a2 a3 b b1 c c1 c0 c4 c5 by (intro conjI)
qed

subsection \<open>Replies to a connection that is closing\<close>

text \<open>
  Claim C6 fails on the reply path. After \<open>SIGINT\<close> both connections are \<open>CLOSING\<close>.
  A message that connection 0 sent before its close completed still reaches the
  handler, which calls \<open>ws.send\<close> on connection 0 without reading its \<open>readyState\<close>:
  with the echo for a payload that parses, with the error object for one that does not.
  Neither is delivered. The broadcast and ping paths do read \<open>readyState\<close>.
\<close>

theorem C6_echo_sent_on_closing_socket:
  "socket closing_down 0 = Some CLOSING
   \<and> emitted closing_down (step demo_env (Message 0 ''{\"a\":1}'') closing_down)
       = [Send 0 (Echo (JObject [(''a'', JNumber 1)]) 1014) Failed]
   \<and> emitted closing_down (step demo_env (Message 0 ''not-json'') closing_down)
       = [Send 0 (Error ''Invalid JSON format'') Failed]"
  by (simp add: closing_down_def demo_defs on_SIGINT_def wss_close_def ws_close_def)

end
